theory Spec2Isabelle
  imports Main
begin

chapter \<open>Telemetry utilities and the composite part of the workbench\<close>

text \<open>
  A shallow embedding of two source files:
  \<^item> \<^verbatim>\<open>vs/platform/telemetry/common/telemetryUtils.ts\<close>: \<^verbatim>\<open>combinedAppender\<close>,
    \<^verbatim>\<open>LogAppender\<close>, \<^verbatim>\<open>flattenKeys\<close>/\<^verbatim>\<open>flatKeys\<close> and \<^verbatim>\<open>flattenValues\<close>;
  \<^item> \<^verbatim>\<open>vs/workbench/browser/parts/compositePart.ts\<close>: the class \<^verbatim>\<open>CompositePart\<close>.
  Definitions keep the names of the source.
\<close>

section \<open>JavaScript values\<close>

text \<open>
  The values that reach the telemetry functions are configuration snapshots and event
  data: finite trees of plain objects, arrays and primitives. An object is the list of
  its own enumerable properties in the order in which \<^verbatim>\<open>Object.keys\<close> lists them; a key
  occurs once in it, and its prototype is \<^verbatim>\<open>Object.prototype\<close>. Numbers are integers or
  \<^verbatim>\<open>NaN\<close> (the functions only test a number for truthiness); arrays are dense.
\<close>

datatype jsval =
    JUndefined
  | JNull
  | JBool bool
  | JNum int
  | JNaN
  | JStr string
  | JArr "jsval list"
  | JObj "(string \<times> jsval) list"

text \<open>What a function throws: a \<^verbatim>\<open>TypeError\<close> of the runtime, or an \<^verbatim>\<open>Error\<close> with its message.\<close>

datatype error = TypeError | Error string

text \<open>\<^verbatim>\<open>!value\<close> is \<open>\<not> truthy value\<close>; \<^verbatim>\<open>value && ...\<close> tests \<open>truthy value\<close>.\<close>

fun truthy :: "jsval \<Rightarrow> bool" where
  "truthy JUndefined = False"
| "truthy JNull = False"
| "truthy (JBool b) = b"
| "truthy (JNum n) = (n \<noteq> 0)"
| "truthy JNaN = False"
| "truthy (JStr s) = (s \<noteq> [])"
| "truthy (JArr xs) = True"
| "truthy (JObj props) = True"

fun typeof :: "jsval \<Rightarrow> string" where
  "typeof JUndefined = ''undefined''"
| "typeof JNull = ''object''"
| "typeof (JBool b) = ''boolean''"
| "typeof (JNum n) = ''number''"
| "typeof JNaN = ''number''"
| "typeof (JStr s) = ''string''"
| "typeof (JArr xs) = ''object''"
| "typeof (JObj props) = ''object''"

fun isArray :: "jsval \<Rightarrow> bool" where
  "isArray (JArr xs) = True"
| "isArray v = False"

text \<open>The decimal digits of an array index, as the runtime writes a numeric key.\<close>

function string_of_nat :: "nat \<Rightarrow> string" where
  "string_of_nat n =
     (if n < 10 then [''0123456789'' ! n]
      else string_of_nat (n div 10) @ [''0123456789'' ! (n mod 10)])"
  by pat_completeness auto
termination
  by (relation "measure id") auto

text \<open>
  \<^verbatim>\<open>Object.keys(value)\<close>: a \<^verbatim>\<open>TypeError\<close> on \<^verbatim>\<open>undefined\<close> and \<^verbatim>\<open>null\<close>; the own keys of
  an object; the indices of an array or of a string; nothing for a number or a boolean.
\<close>

fun object_keys :: "jsval \<Rightarrow> error + string list" where
  "object_keys JUndefined = Inl TypeError"
| "object_keys JNull = Inl TypeError"
| "object_keys (JObj props) = Inr (map fst props)"
| "object_keys (JArr xs) = Inr (map string_of_nat [0..<length xs])"
| "object_keys (JStr s) = Inr (map string_of_nat [0..<length s])"
| "object_keys v = Inr []"

section \<open>Property reads and assignments\<close>

text \<open>
  A property read can also give what a value inherits, which is not data: a method of
  \<^verbatim>\<open>Object.prototype\<close> or of \<^verbatim>\<open>Array.prototype\<close> (a built-in function, named here by the
  place where it is stored), or one of the two prototypes themselves.
\<close>

datatype jsany =
    Data jsval
  | Builtin string
  | ObjectPrototype
  | ArrayPrototype

fun truthy_any :: "jsany \<Rightarrow> bool" where
  "truthy_any (Data v) = truthy v"
| "truthy_any (Builtin f) = True"
| "truthy_any ObjectPrototype = True"
| "truthy_any ArrayPrototype = True"

fun typeof_any :: "jsany \<Rightarrow> string" where
  "typeof_any (Data v) = typeof v"
| "typeof_any (Builtin f) = ''function''"
| "typeof_any ObjectPrototype = ''object''"
| "typeof_any ArrayPrototype = ''object''"

text \<open>
  What the two prototypes hold belongs to the runtime, not to this file: the names of
  the methods of \<^verbatim>\<open>Object.prototype\<close> and of \<^verbatim>\<open>Array.prototype\<close> (\<^verbatim>\<open>constructor\<close> among
  them) are a parameter. Besides its methods \<^verbatim>\<open>Object.prototype\<close> holds the accessor
  \<^verbatim>\<open>__proto__\<close>, and \<^verbatim>\<open>Array.prototype\<close> a \<^verbatim>\<open>length\<close> of 0.
\<close>

record runtime =
  objectMethods :: "string list"
  arrayMethods :: "string list"

datatype property = Value jsany | ProtoAccessor

text \<open>
  The own property of a value under a key: a property of an object; an element or the
  \<^verbatim>\<open>length\<close> of an array; a character or the \<^verbatim>\<open>length\<close> of a string; a member of a
  prototype. A number or a boolean has none. (No function of the file reads a
  property of \<^verbatim>\<open>undefined\<close>, of \<^verbatim>\<open>null\<close> or of a function: there is no equation for them.)
\<close>

fun getOwnProperty :: "runtime \<Rightarrow> jsany \<Rightarrow> string \<Rightarrow> property option" where
  "getOwnProperty rt (Data (JObj props)) k = map_option (\<lambda>v. Value (Data v)) (map_of props k)"
| "getOwnProperty rt (Data (JArr xs)) k =
     (case find (\<lambda>i. string_of_nat i = k) [0..<length xs] of
        Some i \<Rightarrow> Some (Value (Data (xs ! i)))
      | None \<Rightarrow> if k = ''length'' then Some (Value (Data (JNum (int (length xs))))) else None)"
| "getOwnProperty rt (Data (JStr s)) k =
     (case find (\<lambda>i. string_of_nat i = k) [0..<length s] of
        Some i \<Rightarrow> Some (Value (Data (JStr [s ! i])))
      | None \<Rightarrow> if k = ''length'' then Some (Value (Data (JNum (int (length s))))) else None)"
| "getOwnProperty rt (Data (JBool b)) k = None"
| "getOwnProperty rt (Data (JNum n)) k = None"
| "getOwnProperty rt (Data JNaN) k = None"
| "getOwnProperty rt ObjectPrototype k =
     (if k = ''__proto__'' then Some ProtoAccessor
      else if k \<in> set (objectMethods rt) then Some (Value (Builtin (''Object.prototype.'' @ k)))
      else None)"
| "getOwnProperty rt ArrayPrototype k =
     (if k = ''length'' then Some (Value (Data (JNum 0)))
      else if k \<in> set (arrayMethods rt) then Some (Value (Builtin (''Array.prototype.'' @ k)))
      else None)"

text \<open>
  The chain of prototypes of an object, of an array and of the two prototypes. (The
  prototypes of the primitives are not modelled: the file reads own properties of a
  string only, and no property of a number or a boolean.)
\<close>

fun prototypes :: "jsany \<Rightarrow> jsany list" where
  "prototypes (Data (JObj props)) = [ObjectPrototype]"
| "prototypes (Data (JArr xs)) = [ArrayPrototype, ObjectPrototype]"
| "prototypes ArrayPrototype = [ObjectPrototype]"
| "prototypes ObjectPrototype = []"

definition getPrototypeOf :: "jsany \<Rightarrow> jsany" where
  "getPrototypeOf v = (case prototypes v of [] \<Rightarrow> Data JNull | p # ps \<Rightarrow> p)"

text \<open>The first holder along a chain that has the key as an own property decides.\<close>

fun lookup :: "runtime \<Rightarrow> jsany list \<Rightarrow> string \<Rightarrow> property option" where
  "lookup rt [] k = None"
| "lookup rt (holder # chain) k =
     (case getOwnProperty rt holder k of Some p \<Rightarrow> Some p | None \<Rightarrow> lookup rt chain k)"

text \<open>
  \<^verbatim>\<open>value[key]\<close> on a value that is neither \<^verbatim>\<open>undefined\<close> nor \<^verbatim>\<open>null\<close> (on those the read
  throws; every read of the source is guarded or follows \<^verbatim>\<open>Object.keys\<close>): the property
  found on the value or along its prototypes, \<^verbatim>\<open>undefined\<close> when there is none; the
  accessor \<^verbatim>\<open>__proto__\<close> gives the prototype of the value that is read.
\<close>

definition getProp :: "runtime \<Rightarrow> jsany \<Rightarrow> string \<Rightarrow> jsany" where
  "getProp rt v k =
     (case lookup rt (v # prototypes v) k of
        None \<Rightarrow> Data JUndefined
      | Some (Value x) \<Rightarrow> x
      | Some ProtoAccessor \<Rightarrow> getPrototypeOf v)"

text \<open>
  An object that the file itself builds (\<^verbatim>\<open>{}\<close>, \<^verbatim>\<open>{ [key]: v }\<close>): its prototype and its own
  properties, all of them writable data properties.
\<close>

datatype object = Object (prototype: jsany) (properties: "(string \<times> jsany) list")

text \<open>What the setter of \<^verbatim>\<open>__proto__\<close> accepts as a prototype besides \<^verbatim>\<open>null\<close>: an object.\<close>

fun isObject :: "jsany \<Rightarrow> bool" where
  "isObject (Data (JObj props)) = True"
| "isObject (Data (JArr xs)) = True"
| "isObject (Data v) = False"
| "isObject (Builtin f) = True"
| "isObject ObjectPrototype = True"
| "isObject ArrayPrototype = True"

fun overwrite :: "(string \<times> jsany) list \<Rightarrow> string \<Rightarrow> jsany \<Rightarrow> (string \<times> jsany) list" where
  "overwrite [] k v = []"
| "overwrite ((k', v') # props) k v =
     (if k' = k then (k, v) # props else (k', v') # overwrite props k v)"

text \<open>
  \<^verbatim>\<open>obj[key] = v\<close> on such an object. An own property is overwritten. Otherwise the key
  is looked up along the prototypes: when it finds the accessor \<^verbatim>\<open>__proto__\<close> the setter
  runs, which makes \<^verbatim>\<open>v\<close> the prototype of the object when \<^verbatim>\<open>v\<close> is an object or
  \<^verbatim>\<open>null\<close> and does nothing otherwise, and no property is added; when it finds a data
  property (those of the prototypes modelled here are writable) or nothing, the
  property is added, last.
\<close>

definition setProp :: "runtime \<Rightarrow> object \<Rightarrow> string \<Rightarrow> jsany \<Rightarrow> object" where
  "setProp rt obj k v =
     (if k \<in> fst ` set (properties obj) then Object (prototype obj) (overwrite (properties obj) k v)
      else (case lookup rt (if prototype obj = Data JNull then []
                            else prototype obj # prototypes (prototype obj)) k of
              Some ProtoAccessor \<Rightarrow>
                (if isObject v \<or> v = Data JNull then Object v (properties obj) else obj)
            | _ \<Rightarrow> Object (prototype obj) (properties obj @ [(k, v)])))"

section \<open>flattenKeys and flatKeys\<close>

text \<open>
  \<^verbatim>\<open>flatKeys(result, prefix, value)\<close> pushes onto \<^verbatim>\<open>result\<close>; the model returns the new
  \<^verbatim>\<open>result\<close>. The test \<^verbatim>\<open>value && typeof value === 'object' && !Array.isArray(value)\<close>
  holds of the plain objects and of nothing else (lemma \<open>flatKeys_test\<close> below), so it
  is the first equation; \<open>flatKeys_forEach\<close> is
  \<^verbatim>\<open>Object.keys(value).forEach(key => flatKeys(result, prefix ? `${prefix}.${key}` : key, value[key]))\<close>,
  over the properties in key order. A string is truthy when it is not empty.
\<close>

fun flatKeys :: "string list \<Rightarrow> string \<Rightarrow> jsval \<Rightarrow> string list"
  and flatKeys_forEach :: "string list \<Rightarrow> string \<Rightarrow> (string \<times> jsval) list \<Rightarrow> string list" where
  "flatKeys result prefix (JObj props) = flatKeys_forEach result prefix props"
| "flatKeys result prefix v = result @ [prefix]"
| "flatKeys_forEach result prefix [] = result"
| "flatKeys_forEach result prefix ((key, v) # rest) =
     flatKeys_forEach
       (flatKeys result (if prefix \<noteq> [] then prefix @ ''.'' @ key else key) v) prefix rest"

definition flattenKeys :: "jsval \<Rightarrow> string list" where
  "flattenKeys v = (if \<not> truthy v then [] else flatKeys [] [] v)"

section \<open>flattenValues\<close>

text \<open>\<^verbatim>\<open>key.split('.')\<close>: the segments between the dots; never the empty list.\<close>

fun split_dot :: "string \<Rightarrow> string list" where
  "split_dot [] = [[]]"
| "split_dot (c # cs) =
     (if c = CHR ''.'' then [] # split_dot cs
      else (case split_dot cs of [] \<Rightarrow> [[c]] | seg # segs \<Rightarrow> (c # seg) # segs))"

text \<open>
  The inner reducer
  \<^verbatim>\<open>(tmp, k) => tmp && typeof tmp === 'object' ? tmp[k] : undefined\<close>.
\<close>

definition descend :: "runtime \<Rightarrow> jsany \<Rightarrow> string \<Rightarrow> jsany" where
  "descend rt tmp k =
     (if truthy_any tmp \<and> typeof_any tmp = ''object'' then getProp rt tmp k else Data JUndefined)"

text \<open>
  The outer reducer: \<^verbatim>\<open>array.push({ [key]: v })\<close> when \<^verbatim>\<open>typeof v !== 'undefined'\<close>. The
  pushed object has the one own property \<^verbatim>\<open>key\<close> (a computed key defines a property
  whatever its name).
\<close>

definition pushValue :: "runtime \<Rightarrow> jsval \<Rightarrow> object list \<Rightarrow> string \<Rightarrow> object list" where
  "pushValue rt v array key =
     (let r = foldl (descend rt) (Data v) (split_dot key)
      in if typeof_any r \<noteq> ''undefined'' then array @ [Object ObjectPrototype [(key, r)]]
         else array)"

definition flattenValues :: "runtime \<Rightarrow> jsval \<Rightarrow> string list \<Rightarrow> object list" where
  "flattenValues rt v keys = (if \<not> truthy v then [] else foldl (pushValue rt v) [] keys)"

section \<open>LogAppender\<close>

text \<open>
  The regular expression \<^verbatim>\<open>/^sessionID$|^version$|^timestamp$|^commitHash$|^common\./\<close>
  has no flags: \<^verbatim>\<open>^\<close> matches at the start of the input only, \<^verbatim>\<open>$\<close> at its end only, and
  \<^verbatim>\<open>test\<close> holds when some alternative matches at some position of the input. An
  alternative is a sequence of atoms; \<open>match_here\<close> is told whether the position is the
  start of the input.
\<close>

datatype atom = Bol | Eol | Lit char

fun match_here :: "atom list \<Rightarrow> bool \<Rightarrow> string \<Rightarrow> bool" where
  "match_here [] at_start s = True"
| "match_here (Bol # atoms) at_start s = (at_start \<and> match_here atoms at_start s)"
| "match_here (Eol # atoms) at_start s = (s = [] \<and> match_here atoms at_start s)"
| "match_here (Lit c # atoms) at_start [] = False"
| "match_here (Lit c # atoms) at_start (d # s) = (c = d \<and> match_here atoms False s)"

fun match_from :: "atom list list \<Rightarrow> bool \<Rightarrow> string \<Rightarrow> bool" where
  "match_from alts at_start [] = list_ex (\<lambda>a. match_here a at_start []) alts"
| "match_from alts at_start (c # s) =
     (list_ex (\<lambda>a. match_here a at_start (c # s)) alts \<or> match_from alts False s)"

definition regex_test :: "atom list list \<Rightarrow> string \<Rightarrow> bool" where
  "regex_test alts s = match_from alts True s"

definition commonPropertiesRegex :: "atom list list" where
  "commonPropertiesRegex =
     [Bol # map Lit ''sessionID'' @ [Eol],
      Bol # map Lit ''version'' @ [Eol],
      Bol # map Lit ''timestamp'' @ [Eol],
      Bol # map Lit ''commitHash'' @ [Eol],
      Bol # map Lit ''common.'']"

text \<open>
  The log service is the list of the calls \<^verbatim>\<open>trace(message, data)\<close> it has received. A
  call of a method returns what it throws (\<open>Inl\<close>) or its result, and the state it leaves.
\<close>

type_synonym logService = "(string \<times> object) list"

text \<open>
  The loop \<^verbatim>\<open>Object.keys(data).forEach(key => { if (!regex.test(key)) strippedData[key] = data[key] })\<close>,
  with \<^verbatim>\<open>strippedData\<close> passed along; it starts as \<^verbatim>\<open>{}\<close>.
\<close>

fun strip_forEach :: "runtime \<Rightarrow> jsval \<Rightarrow> object \<Rightarrow> string list \<Rightarrow> object" where
  "strip_forEach rt data strippedData [] = strippedData"
| "strip_forEach rt data strippedData (key # keys) =
     strip_forEach rt data
       (if \<not> regex_test commonPropertiesRegex key
        then setProp rt strippedData key (getProp rt (Data data) key) else strippedData) keys"

definition LogAppender_log ::
  "runtime \<Rightarrow> string \<Rightarrow> jsval \<Rightarrow> logService \<Rightarrow> (error + unit) \<times> logService" where
  "LogAppender_log rt eventName data logService =
     (case object_keys data of
        Inl e \<Rightarrow> (Inl e, logService)
      | Inr keys \<Rightarrow>
          (Inr (), logService @
             [(''telemetry/'' @ eventName, strip_forEach rt data (Object ObjectPrototype []) keys)]))"

section \<open>Appenders and combinedAppender\<close>

text \<open>
  A promise is its state at every instant; \<^verbatim>\<open>dispose()\<close> returns a promise or \<^verbatim>\<open>undefined\<close>.
  An \<^verbatim>\<open>ITelemetryAppender\<close> is its two methods, over the state \<open>'w\<close> of whatever the
  appenders write to.
\<close>

datatype settle = Pending | Fulfilled jsval | Rejected jsval

type_synonym promise = "nat \<Rightarrow> settle"

datatype disposed = NoPromise | Promise promise

record 'w appender =
  log :: "string \<Rightarrow> jsval \<Rightarrow> 'w \<Rightarrow> (error + unit) \<times> 'w"
  dispose :: "'w \<Rightarrow> (error + disposed) \<times> 'w"

text \<open>\<^verbatim>\<open>appenders.forEach(a => a.log(e, d))\<close>: an exception ends the loop.\<close>

fun forEach_log :: "'w appender list \<Rightarrow> string \<Rightarrow> jsval \<Rightarrow> 'w \<Rightarrow> (error + unit) \<times> 'w" where
  "forEach_log [] e d w = (Inr (), w)"
| "forEach_log (a # appenders) e d w =
     (case log a e d w of
        (Inl err, w') \<Rightarrow> (Inl err, w')
      | (Inr u, w') \<Rightarrow> forEach_log appenders e d w')"

text \<open>\<^verbatim>\<open>appenders.map(a => a.dispose())\<close>.\<close>

fun map_dispose :: "'w appender list \<Rightarrow> 'w \<Rightarrow> (error + disposed list) \<times> 'w" where
  "map_dispose [] w = (Inr [], w)"
| "map_dispose (a # appenders) w =
     (case dispose a w of
        (Inl err, w') \<Rightarrow> (Inl err, w')
      | (Inr p, w') \<Rightarrow>
          (case map_dispose appenders w' of
             (Inl err, w'') \<Rightarrow> (Inl err, w'')
           | (Inr ps, w'') \<Rightarrow> (Inr (p # ps), w'')))"

text \<open>
  \<^verbatim>\<open>Promise.all\<close> of the runtime. A value that is not a promise counts as a promise
  fulfilled with it. At an instant the result is rejected when an element is (with the
  reason of the first such element), fulfilled with the array of the values when every
  element is fulfilled, and pending otherwise; once settled it stays as it is.
\<close>

fun as_promise :: "disposed \<Rightarrow> promise" where
  "as_promise NoPromise = (\<lambda>t. Fulfilled JUndefined)"
| "as_promise (Promise p) = p"

fun first_rejected :: "settle list \<Rightarrow> jsval option" where
  "first_rejected [] = None"
| "first_rejected (Rejected r # sts) = Some r"
| "first_rejected (st # sts) = first_rejected sts"

fun fulfilled_values :: "settle list \<Rightarrow> jsval list option" where
  "fulfilled_values [] = Some []"
| "fulfilled_values (Fulfilled v # sts) = map_option ((#) v) (fulfilled_values sts)"
| "fulfilled_values (st # sts) = None"

definition settle_all :: "settle list \<Rightarrow> settle" where
  "settle_all sts =
     (case first_rejected sts of
        Some r \<Rightarrow> Rejected r
      | None \<Rightarrow> (case fulfilled_values sts of Some vs \<Rightarrow> Fulfilled (JArr vs) | None \<Rightarrow> Pending))"

fun promise_all :: "promise list \<Rightarrow> promise" where
  "promise_all ps 0 = settle_all (map (\<lambda>p. p 0) ps)"
| "promise_all ps (Suc t) =
     (case promise_all ps t of
        Pending \<Rightarrow> settle_all (map (\<lambda>p. p (Suc t)) ps)
      | Fulfilled vs \<Rightarrow> Fulfilled vs
      | Rejected r \<Rightarrow> Rejected r)"

definition combinedAppender :: "'w appender list \<Rightarrow> 'w appender" where
  "combinedAppender appenders =
     \<lparr> log = forEach_log appenders,
       dispose = (\<lambda>w. case map_dispose appenders w of
                         (Inl err, w') \<Rightarrow> (Inl err, w')
                       | (Inr ds, w') \<Rightarrow> (Inr (Promise (promise_all (map as_promise ds))), w')) \<rparr>"

text \<open>The two appenders of the file: \<^verbatim>\<open>NullAppender\<close> and a \<^verbatim>\<open>LogAppender\<close> on the log service.\<close>

definition NullAppender :: "'w appender" where
  "NullAppender =
     \<lparr> log = (\<lambda>e d w. (Inr (), w)),
       dispose = (\<lambda>w. (Inr (Promise (\<lambda>t. Fulfilled JNull)), w)) \<rparr>"

definition LogAppender :: "runtime \<Rightarrow> logService appender" where
  "LogAppender rt =
     \<lparr> log = LogAppender_log rt,
       dispose = (\<lambda>w. (Inr (Promise (\<lambda>t. Fulfilled JUndefined)), w)) \<rparr>"

section \<open>The telemetry functions as the specification words them\<close>

text \<open>
  A leaf of a tree is a value that is not a plain object; \<open>leaf_paths\<close> lists the key
  paths from the root to the leaves, depth first, in the order of the keys, and
  \<open>dot_join\<close> joins a path with dots.
\<close>

fun leaf_paths :: "jsval \<Rightarrow> string list list"
  and leaf_paths_props :: "(string \<times> jsval) list \<Rightarrow> string list list" where
  "leaf_paths (JObj props) = leaf_paths_props props"
| "leaf_paths v = [[]]"
| "leaf_paths_props [] = []"
| "leaf_paths_props ((key, v) # rest) = map ((#) key) (leaf_paths v) @ leaf_paths_props rest"

fun dot_join :: "string list \<Rightarrow> string" where
  "dot_join [] = []"
| "dot_join [k] = k"
| "dot_join (k # ks) = k @ ''.'' @ dot_join ks"

text \<open>
  The path that \<^verbatim>\<open>flatKeys\<close> itself builds on the way down a key path: its \<^verbatim>\<open>prefix\<close>
  after the keys \<open>ks\<close>, from the prefix \<open>p\<close>.
\<close>

definition prefix_after :: "string \<Rightarrow> string list \<Rightarrow> string" where
  "prefix_after p ks = foldl (\<lambda>prefix key. if prefix \<noteq> [] then prefix @ ''.'' @ key else key) p ks"

text \<open>The value at a key path, through plain objects only.\<close>

fun value_at :: "jsval \<Rightarrow> string list \<Rightarrow> jsval option" where
  "value_at v [] = Some v"
| "value_at (JObj props) (k # ks) = (case map_of props k of Some v \<Rightarrow> value_at v ks | None \<Rightarrow> None)"
| "value_at v (k # ks) = None"

text \<open>
  Replacing the value at a key path (under the first property with each key, the one
  that a read finds); a tree with no value at the path is left as it is.
\<close>

fun put_prop :: "(string \<times> jsval) list \<Rightarrow> string \<Rightarrow> (jsval \<Rightarrow> jsval) \<Rightarrow> (string \<times> jsval) list" where
  "put_prop [] k f = []"
| "put_prop ((k', v) # props) k f =
     (if k' = k then (k', f v) # props else (k', v) # put_prop props k f)"

fun put_at :: "string list \<Rightarrow> jsval \<Rightarrow> jsval \<Rightarrow> jsval" where
  "put_at [] new v = new"
| "put_at (k # ks) new v =
     (case v of JObj props \<Rightarrow> JObj (put_prop props k (put_at ks new)) | _ \<Rightarrow> v)"

text \<open>
  Resolving a path against a tree as the specification words it, one segment at a
  time, through the containers (objects and arrays) and what they hold themselves: the
  properties of an object, the elements and the \<^verbatim>\<open>length\<close> of an array. It fails at a
  segment when the value reached is not a container or holds nothing under the key, and
  a path that ends at \<^verbatim>\<open>undefined\<close> counts as missing.
\<close>

fun own_member :: "jsval \<Rightarrow> string \<Rightarrow> jsval option" where
  "own_member (JObj props) k = map_of props k"
| "own_member (JArr xs) k =
     (case find (\<lambda>i. string_of_nat i = k) [0..<length xs] of
        Some i \<Rightarrow> Some (xs ! i)
      | None \<Rightarrow> if k = ''length'' then Some (JNum (int (length xs))) else None)"
| "own_member v k = None"

fun own_resolve :: "jsval \<Rightarrow> string list \<Rightarrow> jsval option" where
  "own_resolve v [] = (if v = JUndefined then None else Some v)"
| "own_resolve v (k # ks) =
     (case own_member v k of None \<Rightarrow> None | Some v' \<Rightarrow> own_resolve v' ks)"

text \<open>
  The names under which a container finds something that it does not hold itself, and
  the paths that never use one: at every segment the value reached holds the key
  itself, or the key is none of these names.
\<close>

fun inherited_names :: "runtime \<Rightarrow> jsval \<Rightarrow> string list" where
  "inherited_names rt (JObj props) = ''__proto__'' # objectMethods rt"
| "inherited_names rt (JArr xs) = arrayMethods rt @ ''__proto__'' # objectMethods rt"
| "inherited_names rt v = []"

fun own_path :: "runtime \<Rightarrow> jsval \<Rightarrow> string list \<Rightarrow> bool" where
  "own_path rt v [] = True"
| "own_path rt v (k # ks) =
     (case own_member v k of
        Some v' \<Rightarrow> own_path rt v' ks
      | None \<Rightarrow> k \<notin> set (inherited_names rt v))"

text \<open>
  Resolving a path with all that a segment can find on a container, in the order in
  which a read finds it: what the container holds itself, then the methods of its
  prototypes and, under \<^verbatim>\<open>__proto__\<close>, its prototype. The two prototypes are containers
  too. Functions and primitives are not.
\<close>

definition object_members :: "runtime \<Rightarrow> jsany \<Rightarrow> (string \<times> jsany) list" where
  "object_members rt proto =
     (''__proto__'', proto) # map (\<lambda>m. (m, Builtin (''Object.prototype.'' @ m))) (objectMethods rt)"

definition array_members :: "runtime \<Rightarrow> (string \<times> jsany) list" where
  "array_members rt = map (\<lambda>m. (m, Builtin (''Array.prototype.'' @ m))) (arrayMethods rt)"

fun members :: "runtime \<Rightarrow> jsany \<Rightarrow> (string \<times> jsany) list" where
  "members rt (Data (JObj props)) =
     map (\<lambda>(k, v). (k, Data v)) props @ object_members rt ObjectPrototype"
| "members rt (Data (JArr xs)) =
     zip (map string_of_nat [0..<length xs]) (map Data xs)
     @ [(''length'', Data (JNum (int (length xs))))]
     @ array_members rt @ object_members rt ArrayPrototype"
| "members rt ArrayPrototype =
     (''length'', Data (JNum 0)) # array_members rt @ object_members rt ObjectPrototype"
| "members rt ObjectPrototype = object_members rt (Data JNull)"
| "members rt v = []"

fun resolve :: "runtime \<Rightarrow> jsany \<Rightarrow> string list \<Rightarrow> jsany option" where
  "resolve rt v [] = (if v = Data JUndefined then None else Some v)"
| "resolve rt v (k # ks) =
     (case map_of (members rt v) k of None \<Rightarrow> None | Some v' \<Rightarrow> resolve rt v' ks)"

fun is_container :: "jsval \<Rightarrow> bool" where
  "is_container (JObj props) = True"
| "is_container (JArr xs) = True"
| "is_container v = False"

text \<open>The keys that the specification calls common or session metadata.\<close>

definition is_common_property :: "string \<Rightarrow> bool" where
  "is_common_property k =
     (k = ''sessionID'' \<or> k = ''version'' \<or> k = ''timestamp'' \<or> k = ''commitHash''
      \<or> take 7 k = ''common.'')"

text \<open>
  What \<^verbatim>\<open>LogAppender.log\<close> makes of a property \<^verbatim>\<open>__proto__\<close> of its data: the prototype of
  the object that it forwards.
\<close>

definition forwarded_prototype :: "(string \<times> jsval) list \<Rightarrow> jsany" where
  "forwarded_prototype props =
     (case map_of props ''__proto__'' of
        Some v \<Rightarrow> if is_container v \<or> v = JNull then Data v else ObjectPrototype
      | None \<Rightarrow> ObjectPrototype)"

text \<open>
  The state in which the \<open>n\<close>-th wrapped appender is called by a combined \<^verbatim>\<open>log\<close>, when
  the calls before it return: the state that they leave, one after the other.
\<close>

definition log_state :: "'w appender list \<Rightarrow> string \<Rightarrow> jsval \<Rightarrow> 'w \<Rightarrow> nat \<Rightarrow> 'w" where
  "log_state appenders e d w n = foldl (\<lambda>w a. snd (log a e d w)) w (take n appenders)"

section \<open>A runtime and an appender for the examples\<close>

text \<open>
  The methods of \<^verbatim>\<open>Object.prototype\<close> and \<^verbatim>\<open>Array.prototype\<close> of
  ECMAScript 2015. Later editions add methods to \<^verbatim>\<open>Array.prototype\<close>; the theorems are
  stated for every runtime.
\<close>

definition ecmascript2015 :: runtime where
  "ecmascript2015 =
     \<lparr> objectMethods =
         [''constructor'', ''hasOwnProperty'', ''isPrototypeOf'', ''propertyIsEnumerable'',
          ''toLocaleString'', ''toString'', ''valueOf'', ''__defineGetter__'',
          ''__defineSetter__'', ''__lookupGetter__'', ''__lookupSetter__''],
       arrayMethods =
         [''constructor'', ''concat'', ''copyWithin'', ''entries'', ''every'', ''fill'',
          ''filter'', ''find'', ''findIndex'', ''forEach'', ''indexOf'', ''join'', ''keys'',
          ''lastIndexOf'', ''map'', ''pop'', ''push'', ''reduce'', ''reduceRight'', ''reverse'',
          ''shift'', ''slice'', ''some'', ''sort'', ''splice'', ''toLocaleString'', ''toString'',
          ''unshift'', ''values''] \<rparr>"

text \<open>
  An appender whose \<^verbatim>\<open>log\<close> notes the call in the log service, with the
  data that it was given, and whose \<^verbatim>\<open>dispose\<close> returns \<^verbatim>\<open>undefined\<close>.
\<close>

definition recorder :: "logService appender" where
  "recorder =
     \<lparr> log = (\<lambda>e d w. (Inr (), w @ [(''recorded/'' @ e, Object ObjectPrototype [(''data'', Data d)])])),
       dispose = (\<lambda>w. (Inr NoPromise, w)) \<rparr>"


chapter \<open>CompositePart\<close>

section \<open>The part, its collaborators and its state\<close>

text \<open>
  A composite is an instance that a descriptor of the registry has instantiated: it
  answers \<^verbatim>\<open>getId()\<close> with the identifier of its descriptor, and \<open>serial\<close> tells the
  instances of one identifier apart (the number of composites instantiated before it).
  A container is the element \<^verbatim>\<open>$('.composite')\<close> that \<^verbatim>\<open>showComposite\<close> builds for a
  composite and hands to its \<^verbatim>\<open>create\<close>. An action is named by its identifier.
\<close>

datatype composite = Composite (getId: string) (serial: nat)

datatype container = Container composite

type_synonym dimension = "nat \<times> nat"

type_synonym actionsBinding = "string list \<times> string list"

text \<open>
  The calls that the part makes on its collaborators (the composites, the DOM, the
  tool bar, the progress bar, the title label, the storage service, the two emitters),
  in the order in which it makes them.
\<close>

datatype call =
    Instantiate composite
  | NewProgressIndicator string "bool option"
  | OnTitleAreaUpdate composite
  | CompositeFocus composite
  | CompositeSetVisible composite bool
  | CompositeCreate composite container
  | CompositeUpdateStyles composite
  | CompositeLayout composite dimension
  | CompositeDispose composite
  | DisposableDispose composite
  | ContentAreaAppendChild container
  | ContainerShow container
  | ContainerRemove container
  | ContainerHide container
  | ProgressBarStopHide
  | ToolBarActionRunner composite
  | ToolBarContext "composite option"
  | ToolBarSetActions "string list" "string list"
  | ToolBarSetAriaLabel string
  | ActionRunnerOnDidRun composite
  | TitleLabelUpdateTitle string string "string option"
  | StorageStore string
  | StorageRemove
  | DidCompositeOpen composite bool
  | DidCompositeClose composite

text \<open>
  What the part reads and never changes: the registry (the name of the descriptor of an
  identifier), \<^verbatim>\<open>defaultCompositeId\<close>, and the answers of its collaborators:
  \<^verbatim>\<open>composite.getTitle()\<close> (\<open>None\<close> is \<^verbatim>\<open>null\<close>), the label of the keybinding of an
  identifier (\<open>None\<close> when \<^verbatim>\<open>keybinding && keybinding.getLabel()\<close> is falsy by absence),
  the actions of a composite, \<^verbatim>\<open>prepareActions\<close> and the content size that
  \<^verbatim>\<open>super.layoutContents\<close> computes.
\<close>

record env =
  registry :: "string \<rightharpoonup> string"
  defaultCompositeId :: string
  getTitle :: "composite \<Rightarrow> string option"
  lookupKeybindingLabel :: "string \<Rightarrow> string option"
  compositeActions :: "composite \<Rightarrow> string list"
  compositeSecondaryActions :: "composite \<Rightarrow> string list"
  prepareActions :: "string list \<Rightarrow> string list"
  layoutContents :: "nat \<Rightarrow> nat \<Rightarrow> dimension"

text \<open>
  The interface \<^verbatim>\<open>CompositeItem\<close>: the composite, its disposable store (the composites to
  whose title area events it holds a subscription) and its progress indicator (the
  identifier and the flag \<^verbatim>\<open>isActive\<close> it was created with).
\<close>

record compositeItem =
  item_composite :: composite
  item_disposable :: "composite list"
  item_progress :: "string \<times> bool option"

text \<open>
  The fields of the part, and the state of its collaborators that it changes: the
  counter of \<^verbatim>\<open>defaultGenerator\<close> (the token \<^verbatim>\<open>'id#' + n\<close> is the number \<open>n\<close>), the number of
  composites instantiated so far, the value stored under \<^verbatim>\<open>activeCompositeSettingsKey\<close>
  in the workspace scope, the composites that were last told \<^verbatim>\<open>setVisible(true)\<close>, the
  children of the content area, and the calls made so far. The part is modelled once its
  title area and content area exist (\<^verbatim>\<open>titleLabel\<close>, \<^verbatim>\<open>toolBar\<close> and \<^verbatim>\<open>progressBar\<close> are
  set), as they are before a composite is opened.
\<close>

record part =
  activeComposite :: "composite option"
  lastActiveCompositeId :: string
  instantiatedCompositeItems :: "string \<rightharpoonup> compositeItem"
  mapCompositeToCompositeContainer :: "string \<rightharpoonup> container"
  mapActionsBindingToComposite :: "string \<rightharpoonup> actionsBinding"
  contentAreaSize :: "dimension option"
  currentCompositeOpenToken :: "nat option"
  lastId :: nat
  instantiated :: nat
  storage :: "string option"
  visible :: "composite set"
  contentArea :: "container list"
  calls :: "call list"

text \<open>The constructor; \<open>stored\<close> is what the storage holds, \<open>n\<close> and \<open>m\<close> the two counters.\<close>

definition new_part :: "env \<Rightarrow> string option \<Rightarrow> nat \<Rightarrow> nat \<Rightarrow> part" where
  "new_part E stored n m =
     \<lparr> activeComposite = None,
       lastActiveCompositeId = (case stored of Some v \<Rightarrow> v | None \<Rightarrow> defaultCompositeId E),
       instantiatedCompositeItems = Map.empty,
       mapCompositeToCompositeContainer = Map.empty,
       mapActionsBindingToComposite = Map.empty,
       contentAreaSize = None,
       currentCompositeOpenToken = None,
       lastId = n,
       instantiated = m,
       storage = stored,
       visible = {},
       contentArea = [],
       calls = [] \<rparr>"

definition emit :: "call \<Rightarrow> part \<Rightarrow> part" where
  "emit c s = calls_update (\<lambda>cs. cs @ [c]) s"

text \<open>\<^verbatim>\<open>composite.setVisible(visible)\<close>.\<close>

definition setVisible :: "composite \<Rightarrow> bool \<Rightarrow> part \<Rightarrow> part" where
  "setVisible composite b s =
     emit (CompositeSetVisible composite b)
       (visible_update (\<lambda>v. if b then insert composite v else v - {composite}) s)"

text \<open>\<^verbatim>\<open>this.activeComposite && this.activeComposite.getId() === id\<close>.\<close>

definition activeIs :: "part \<Rightarrow> string \<Rightarrow> bool" where
  "activeIs s cid = (case activeComposite s of Some c \<Rightarrow> getId c = cid | None \<Rightarrow> False)"

section \<open>The methods\<close>

text \<open>
  \<^verbatim>\<open>updateTitle(compositeId, compositeTitle?)\<close>. \<^verbatim>\<open>!compositeTitle\<close> holds of
  \<^verbatim>\<open>undefined\<close> and of the empty string; \<^verbatim>\<open>(keybinding && keybinding.getLabel()) || undefined\<close>
  drops an empty label.
\<close>

definition updateTitle :: "env \<Rightarrow> string \<Rightarrow> string option \<Rightarrow> part \<Rightarrow> part" where
  "updateTitle E compositeId compositeTitle s =
     (case registry E compositeId of
        None \<Rightarrow> s
      | Some name \<Rightarrow>
          (let title = (case compositeTitle of
                          None \<Rightarrow> name
                        | Some t \<Rightarrow> if t = [] then name else t);
               keybinding = (case lookupKeybindingLabel E compositeId of
                               None \<Rightarrow> None
                             | Some l \<Rightarrow> if l = [] then None else Some l)
           in emit (ToolBarSetAriaLabel title)
                (emit (TitleLabelUpdateTitle compositeId title keybinding) s)))"

text \<open>
  \<^verbatim>\<open>collectCompositeActions(composite)\<close>: the actions of the composite followed by those of
  the part (\<^verbatim>\<open>getActions()\<close> and \<^verbatim>\<open>getSecondaryActions()\<close> of the part return \<^verbatim>\<open>[]\<close>), the
  context of the tool bar set from \<^verbatim>\<open>actionsContextProvider()\<close> (the active composite, if
  any, provides it); the result is the binding that sets the prepared actions.
\<close>

definition getActions :: "string list" where
  "getActions = []"

definition getSecondaryActions :: "string list" where
  "getSecondaryActions = []"

definition collectCompositeActions :: "env \<Rightarrow> composite \<Rightarrow> part \<Rightarrow> actionsBinding \<times> part" where
  "collectCompositeActions E composite s =
     (let primaryActions = compositeActions E composite @ getActions;
          secondaryActions = compositeSecondaryActions E composite @ getSecondaryActions;
          s1 = emit (ToolBarContext (activeComposite s)) s
      in ((prepareActions E primaryActions, prepareActions E secondaryActions), s1))"

text \<open>\<^verbatim>\<open>hideActiveComposite()\<close>.\<close>

definition hideActiveComposite :: "part \<Rightarrow> composite option \<times> part" where
  "hideActiveComposite s =
     (case activeComposite s of
        None \<Rightarrow> (None, s)
      | Some composite \<Rightarrow>
          (let s1 = s\<lparr>activeComposite := None\<rparr>;
               compositeContainer = mapCompositeToCompositeContainer s1 (getId composite);
               s2 = setVisible composite False s1;
               s3 = (case compositeContainer of
                       None \<Rightarrow> s2
                     | Some k \<Rightarrow>
                         emit (ContainerHide k)
                           (emit (ContainerRemove k)
                              (s2\<lparr>contentArea := filter (\<lambda>x. x \<noteq> k) (contentArea s2)\<rparr>)));
               s4 = emit ProgressBarStopHide s3;
               s5 = emit (ToolBarSetActions [] []) s4;
               s6 = emit (DidCompositeClose composite) s5
           in (Some composite, s6)))"

text \<open>
  \<^verbatim>\<open>createComposite(id, isActive?)\<close>. The descriptor instantiates the composite; \<open>h\<close> is
  what the construction of the composite does to the part meanwhile (nothing, when it
  does not call back into the part). The exception of an unknown identifier is the
  result \<open>Inl\<close>.
\<close>

definition createComposite ::
  "env \<Rightarrow> string \<Rightarrow> bool option \<Rightarrow> (part \<Rightarrow> part) \<Rightarrow> part \<Rightarrow> (error + composite) \<times> part" where
  "createComposite E cid isActive h s =
     (case instantiatedCompositeItems s cid of
        Some compositeItem \<Rightarrow> (Inr (item_composite compositeItem), s)
      | None \<Rightarrow>
          (case registry E cid of
             Some name \<Rightarrow>
               (let composite = Composite cid (instantiated s);
                    s1 = h (emit (Instantiate composite) (s\<lparr>instantiated := instantiated s + 1\<rparr>));
                    s2 = emit (NewProgressIndicator cid isActive) s1;
                    s3 = s2\<lparr>instantiatedCompositeItems := (instantiatedCompositeItems s2)
                           (cid \<mapsto> \<lparr> item_composite = composite,
                                     item_disposable = [],
                                     item_progress = (cid, isActive) \<rparr>)\<rparr>;
                    s4 = emit (OnTitleAreaUpdate composite)
                           (s3\<lparr>instantiatedCompositeItems := (instantiatedCompositeItems s3)
                              (cid \<mapsto> \<lparr> item_composite = composite,
                                        item_disposable = [composite],
                                        item_progress = (cid, isActive) \<rparr>)\<rparr>)
                in (Inr composite, s4))
           | None \<Rightarrow> (Inl (Error (''Unable to find composite with id '' @ cid)), s)))"

text \<open>\<^verbatim>\<open>showComposite(composite)\<close>, with its two checks that the composite is still the active one.\<close>

definition showComposite :: "env \<Rightarrow> composite \<Rightarrow> part \<Rightarrow> part" where
  "showComposite E composite s =
     (let s1 = s\<lparr>activeComposite := Some composite\<rparr>;
          cid = getId composite;
          s2 = (if cid \<noteq> defaultCompositeId E
                then emit (StorageStore cid) (s1\<lparr>storage := Some cid\<rparr>)
                else emit StorageRemove (s1\<lparr>storage := None\<rparr>));
          s3 = s2\<lparr>lastActiveCompositeId := cid\<rparr>;
          (compositeContainer, s4) =
            (case mapCompositeToCompositeContainer s3 cid of
               Some k \<Rightarrow> (k, s3)
             | None \<Rightarrow>
                 (let k = Container composite;
                      s' = emit (CompositeUpdateStyles composite) (emit (CompositeCreate composite k) s3)
                  in (k, s'\<lparr>mapCompositeToCompositeContainer :=
                              (mapCompositeToCompositeContainer s')(cid \<mapsto> k)\<rparr>)))
      in if \<not> activeIs s4 cid then s4
         else
           (let s5 = emit (ContainerShow compositeContainer)
                       (emit (ContentAreaAppendChild compositeContainer)
                          (s4\<lparr>contentArea :=
                                filter (\<lambda>x. x \<noteq> compositeContainer) (contentArea s4)
                                  @ [compositeContainer]\<rparr>));
                s6 = emit (ToolBarActionRunner composite) s5;
                s7 = (case registry E cid of
                        Some name \<Rightarrow>
                          if Some name \<noteq> getTitle E composite
                          then updateTitle E cid (getTitle E composite) s6 else s6
                      | None \<Rightarrow> s6);
                (actionsBinding, s8) =
                  (case mapActionsBindingToComposite s7 cid of
                     Some b \<Rightarrow> (b, s7)
                   | None \<Rightarrow>
                       (let (b, s') = collectCompositeActions E composite s7
                        in (b, s'\<lparr>mapActionsBindingToComposite :=
                                    (mapActionsBindingToComposite s')(cid \<mapsto> b)\<rparr>)));
                s9 = emit (ToolBarSetActions (fst actionsBinding) (snd actionsBinding)) s8;
                s10 = emit (ActionRunnerOnDidRun composite) s9;
                s11 = setVisible composite True s10
            in if \<not> activeIs s11 cid then s11
               else (case contentAreaSize s11 of
                       Some dim \<Rightarrow> emit (CompositeLayout composite dim) s11
                     | None \<Rightarrow> s11)))"

text \<open>
  \<^verbatim>\<open>doOpenComposite(id, focus)\<close> after its call of \<^verbatim>\<open>createComposite\<close>: the check of the
  token and of the active composite, and what follows it. The result \<open>None\<close> is
  \<^verbatim>\<open>undefined\<close>.
\<close>

definition doOpenComposite_continue ::
  "env \<Rightarrow> nat \<Rightarrow> composite \<Rightarrow> bool \<Rightarrow> part \<Rightarrow> (error + composite option) \<times> part" where
  "doOpenComposite_continue E token composite focus s =
     (if currentCompositeOpenToken s \<noteq> Some token
         \<or> (case activeComposite s of
               Some c \<Rightarrow> getId c \<noteq> getId composite
             | None \<Rightarrow> False)
      then (Inr None, s)
      else if activeIs s (getId composite)
      then
        (let s1 = (if focus then emit (CompositeFocus composite) s else s)
         in (Inr (Some composite), emit (DidCompositeOpen composite focus) s1))
      else
        (let s1 = showComposite E composite s;
             s2 = (if focus then emit (CompositeFocus composite) s1 else s1)
         in (Inr (Some composite), emit (DidCompositeOpen composite focus) s2)))"

text \<open>
  \<^verbatim>\<open>doOpenComposite(id, focus = false)\<close> up to \<^verbatim>\<open>createComposite\<close>: the token, the hiding of
  the active composite, the title, the composite. The state keeps what was done before
  an exception.
\<close>

definition mintToken :: "part \<Rightarrow> nat \<times> part" where
  "mintToken s =
     (let token = lastId s + 1
      in (token, s\<lparr>lastId := token, currentCompositeOpenToken := Some token\<rparr>))"

definition doOpenComposite ::
  "env \<Rightarrow> string \<Rightarrow> bool \<Rightarrow> (part \<Rightarrow> part) \<Rightarrow> part \<Rightarrow> (error + composite option) \<times> part" where
  "doOpenComposite E cid focus h s =
     (let (token, s1) = mintToken s;
          s2 = (if activeComposite s1 \<noteq> None then snd (hideActiveComposite s1) else s1);
          s3 = updateTitle E cid None s2
      in case createComposite E cid (Some True) h s3 of
           (Inl err, s4) \<Rightarrow> (Inl err, s4)
         | (Inr composite, s4) \<Rightarrow> doOpenComposite_continue E token composite focus s4)"

text \<open>The state in which \<^verbatim>\<open>doOpenComposite\<close> calls \<^verbatim>\<open>createComposite\<close>.\<close>

definition before_create :: "env \<Rightarrow> string \<Rightarrow> part \<Rightarrow> part" where
  "before_create E cid s =
     updateTitle E cid None
       (if activeComposite (snd (mintToken s)) \<noteq> None
        then snd (hideActiveComposite (snd (mintToken s))) else snd (mintToken s))"

text \<open>\<^verbatim>\<open>openComposite(id, focus?)\<close>; an absent \<^verbatim>\<open>focus\<close> is falsy, and \<^verbatim>\<open>false\<close> by default below.\<close>

definition openComposite ::
  "env \<Rightarrow> string \<Rightarrow> bool option \<Rightarrow> (part \<Rightarrow> part) \<Rightarrow> part \<Rightarrow> (error + composite option) \<times> part" where
  "openComposite E cid focus h s =
     (case activeComposite s of
        None \<Rightarrow> doOpenComposite E cid (focus = Some True) h s
      | Some active \<Rightarrow>
          if getId active = cid
          then (Inr (Some active),
                (if focus = Some True then emit (CompositeFocus active) s else s))
          else doOpenComposite E cid (focus = Some True) h s)"

text \<open>\<^verbatim>\<open>removeComposite(compositeId)\<close>.\<close>

definition removeComposite :: "string \<Rightarrow> part \<Rightarrow> bool \<times> part" where
  "removeComposite compositeId s =
     (if activeIs s compositeId then (False, s)
      else
        (let s1 = s\<lparr>mapCompositeToCompositeContainer :=
                     (mapCompositeToCompositeContainer s)(compositeId := None)\<rparr>;
             s2 = s1\<lparr>mapActionsBindingToComposite :=
                      (mapActionsBindingToComposite s1)(compositeId := None)\<rparr>;
             s3 = (case instantiatedCompositeItems s2 compositeId of
                     None \<Rightarrow> s2
                   | Some compositeItem \<Rightarrow>
                       (let s' = emit (DisposableDispose (item_composite compositeItem))
                                   (emit (CompositeDispose (item_composite compositeItem)) s2)
                        in s'\<lparr>instantiatedCompositeItems :=
                                (instantiatedCompositeItems s')(compositeId := None)\<rparr>))
         in (True, s3)))"

text \<open>\<^verbatim>\<open>onTitleAreaUpdate(compositeId)\<close>; \<^verbatim>\<open>getTitle() || undefined\<close> drops an empty title.\<close>

definition onTitleAreaUpdate :: "env \<Rightarrow> string \<Rightarrow> part \<Rightarrow> part" where
  "onTitleAreaUpdate E compositeId s =
     (case activeComposite s of
        None \<Rightarrow> s\<lparr>mapActionsBindingToComposite :=
                     (mapActionsBindingToComposite s)(compositeId := None)\<rparr>
      | Some active \<Rightarrow>
          if getId active = compositeId
          then
            (let s1 = updateTitle E (getId active)
                        (case getTitle E active of
                           None \<Rightarrow> None
                         | Some t \<Rightarrow> if t = [] then None else Some t) s;
                 (actionsBinding, s2) = collectCompositeActions E active s1;
                 s3 = s2\<lparr>mapActionsBindingToComposite :=
                          (mapActionsBindingToComposite s2)(getId active \<mapsto> actionsBinding)\<rparr>
             in emit (ToolBarSetActions (fst actionsBinding) (snd actionsBinding)) s3)
          else s\<lparr>mapActionsBindingToComposite :=
                   (mapActionsBindingToComposite s)(compositeId := None)\<rparr>)"

text \<open>\<^verbatim>\<open>layout(width, height)\<close>.\<close>

definition layout :: "env \<Rightarrow> nat \<Rightarrow> nat \<Rightarrow> part \<Rightarrow> part" where
  "layout E width height s =
     (let s1 = s\<lparr>contentAreaSize := Some (layoutContents E width height)\<rparr>
      in case activeComposite s1 of
           Some c \<Rightarrow> emit (CompositeLayout c (layoutContents E width height)) s1
         | None \<Rightarrow> s1)"

section \<open>Runs of a part\<close>

text \<open>
  The calls that the owner of a part makes on it. An \<open>OpenComposite\<close> or a
  \<open>CreateComposite\<close> carries the calls that the construction of the composite makes on
  the part in turn, should the composite have to be instantiated; the construction
  returns (it lets no exception of these calls escape). A run goes on after a call that
  throws, as the owner may catch the exception. The methods of a run are those that the
  owners of a part call: \<^verbatim>\<open>openComposite\<close>, \<^verbatim>\<open>createComposite\<close>, \<^verbatim>\<open>hideActiveComposite\<close>,
  \<^verbatim>\<open>removeComposite\<close>, \<^verbatim>\<open>onTitleAreaUpdate\<close> and \<^verbatim>\<open>layout\<close>; \<^verbatim>\<open>dispose\<close> ends the life of a
  part and is not a step of a run.
\<close>

datatype op =
    OpenComposite string "bool option" "op list"
  | CreateComposite string "bool option" "op list"
  | HideActiveComposite
  | RemoveComposite string
  | TitleAreaUpdate string
  | Layout nat nat

fun run_op :: "env \<Rightarrow> op \<Rightarrow> part \<Rightarrow> part"
  and run_ops :: "env \<Rightarrow> op list \<Rightarrow> part \<Rightarrow> part" where
  "run_op E (OpenComposite cid focus nested) s = snd (openComposite E cid focus (run_ops E nested) s)"
| "run_op E (CreateComposite cid isActive nested) s =
     snd (createComposite E cid isActive (run_ops E nested) s)"
| "run_op E HideActiveComposite s = snd (hideActiveComposite s)"
| "run_op E (RemoveComposite cid) s = snd (removeComposite cid s)"
| "run_op E (TitleAreaUpdate cid) s = onTitleAreaUpdate E cid s"
| "run_op E (Layout width height) s = layout E width height s"
| "run_ops E [] s = s"
| "run_ops E (x # xs) s = run_ops E xs (run_op E x s)"

text \<open>
  What is shown belongs to the active composite: only the active composite was last
  told that it is visible, and only its container is a child of the content area.
\<close>

definition shown_is_active :: "part \<Rightarrow> bool" where
  "shown_is_active s =
     (visible s \<subseteq> set_option (activeComposite s)
      \<and> set (contentArea s) \<subseteq>
          set_option (case activeComposite s of
                        Some c \<Rightarrow> mapCompositeToCompositeContainer s (getId c)
                      | None \<Rightarrow> None))"

text \<open>The calls that \<^verbatim>\<open>hideActiveComposite\<close> makes for the composite \<open>c\<close> in the state \<open>s\<close>.\<close>

definition hide_calls :: "part \<Rightarrow> composite \<Rightarrow> call list" where
  "hide_calls s c =
     CompositeSetVisible c False
     # (case mapCompositeToCompositeContainer s (getId c) of
          None \<Rightarrow> []
        | Some k \<Rightarrow> [ContainerRemove k, ContainerHide k])
     @ [ProgressBarStopHide, ToolBarSetActions [] [], DidCompositeClose c]"

text \<open>The calls that show something or announce an opening.\<close>

fun is_open_call :: "call \<Rightarrow> bool" where
  "is_open_call (DidCompositeOpen c focus) = True"
| "is_open_call other = False"


text \<open>The calls that \<^verbatim>\<open>updateTitle\<close> and \<^verbatim>\<open>showComposite\<close> make, and the container that is shown.\<close>

definition title_calls :: "env \<Rightarrow> string \<Rightarrow> string option \<Rightarrow> call list" where
  "title_calls E compositeId compositeTitle =
     (case registry E compositeId of
        None \<Rightarrow> []
      | Some name \<Rightarrow>
          [TitleLabelUpdateTitle compositeId
             (case compositeTitle of None \<Rightarrow> name | Some t \<Rightarrow> if t = [] then name else t)
             (case lookupKeybindingLabel E compositeId of
                None \<Rightarrow> None
              | Some l \<Rightarrow> if l = [] then None else Some l),
           ToolBarSetAriaLabel
             (case compositeTitle of None \<Rightarrow> name | Some t \<Rightarrow> if t = [] then name else t)])"

definition container_of :: "part \<Rightarrow> composite \<Rightarrow> container" where
  "container_of s c =
     (case mapCompositeToCompositeContainer s (getId c) of
        Some k \<Rightarrow> k
      | None \<Rightarrow> Container c)"

definition binding_of :: "env \<Rightarrow> part \<Rightarrow> composite \<Rightarrow> actionsBinding" where
  "binding_of E s c =
     (case mapActionsBindingToComposite s (getId c) of
        Some b \<Rightarrow> b
      | None \<Rightarrow> (prepareActions E (compositeActions E c),
                 prepareActions E (compositeSecondaryActions E c)))"

definition show_calls :: "env \<Rightarrow> composite \<Rightarrow> part \<Rightarrow> call list" where
  "show_calls E c s =
     [if getId c \<noteq> defaultCompositeId E then StorageStore (getId c) else StorageRemove]
     @ (case mapCompositeToCompositeContainer s (getId c) of
          Some k \<Rightarrow> []
        | None \<Rightarrow> [CompositeCreate c (Container c), CompositeUpdateStyles c])
     @ [ContentAreaAppendChild (container_of s c), ContainerShow (container_of s c),
        ToolBarActionRunner c]
     @ (case registry E (getId c) of
          Some name \<Rightarrow>
            if Some name \<noteq> getTitle E c then title_calls E (getId c) (getTitle E c) else []
        | None \<Rightarrow> [])
     @ (case mapActionsBindingToComposite s (getId c) of
          Some b \<Rightarrow> []
        | None \<Rightarrow> [ToolBarContext (Some c)])
     @ [ToolBarSetActions (fst (binding_of E s c)) (snd (binding_of E s c)),
        ActionRunnerOnDidRun c,
        CompositeSetVisible c True]
     @ (case contentAreaSize s of Some dim \<Rightarrow> [CompositeLayout c dim] | None \<Rightarrow> [])"

text \<open>What a run has added to the calls of a state.\<close>

definition new_calls :: "part \<Rightarrow> part \<Rightarrow> call list" where
  "new_calls s s' = drop (length (calls s)) (calls s')"

text \<open>
  A later state of a run: the calls and the two counters only grow; when no token was
  minted the current token is the same and no composite has become active; when a token
  was minted the current token is newer than every token minted before.
\<close>

definition later :: "part \<Rightarrow> part \<Rightarrow> bool" where
  "later s s' =
     (take (length (calls s)) (calls s') = calls s
      \<and> instantiated s \<le> instantiated s'
      \<and> lastId s \<le> lastId s'
      \<and> (lastId s' = lastId s \<longrightarrow>
            currentCompositeOpenToken s' = currentCompositeOpenToken s
            \<and> (activeComposite s' = None \<or> activeComposite s' = activeComposite s))
      \<and> (lastId s < lastId s' \<longrightarrow>
            (\<exists>t. currentCompositeOpenToken s' = Some t \<and> lastId s < t)))"

text \<open>
  The cache is in order: an item is kept under the identifier of its composite, which
  the registry knows, and every composite instantiated so far has a serial number below
  the counter.
\<close>

definition cache_ok :: "env \<Rightarrow> part \<Rightarrow> bool" where
  "cache_ok E s =
     ((\<forall>cid item. instantiatedCompositeItems s cid = Some item \<longrightarrow>
          getId (item_composite item) = cid
          \<and> serial (item_composite item) < instantiated s
          \<and> registry E cid \<noteq> None)
      \<and> (\<forall>c. Instantiate c \<in> set (calls s) \<longrightarrow> serial c < instantiated s))"

text \<open>
  What the construction of a composite may do to the part: it leads to a later state and
  keeps the cache in order and what is shown with the active composite. The calls of a
  run are of this kind (lemma \<open>hook_ok_run_ops\<close>).
\<close>

definition hook_ok :: "env \<Rightarrow> (part \<Rightarrow> part) \<Rightarrow> bool" where
  "hook_ok E h =
     (\<forall>s. later s (h s)
          \<and> (cache_ok E s \<longrightarrow> cache_ok E (h s))
          \<and> (shown_is_active s \<longrightarrow> shown_is_active (h s)))"

section \<open>A part for the examples\<close>

text \<open>
  A registry with the two composites \<^verbatim>\<open>explorer\<close> (the default) and \<^verbatim>\<open>search\<close>, and the
  part after \<^verbatim>\<open>openComposite('explorer')\<close> on a new part.
\<close>

definition example_env :: env where
  "example_env =
     \<lparr> registry = [''explorer'' \<mapsto> ''Explorer'', ''search'' \<mapsto> ''Search''],
       defaultCompositeId = ''explorer'',
       getTitle = (\<lambda>c. None),
       lookupKeybindingLabel = (\<lambda>cid. None),
       compositeActions = (\<lambda>c. []),
       compositeSecondaryActions = (\<lambda>c. []),
       prepareActions = (\<lambda>actions. actions),
       layoutContents = (\<lambda>width height. (width, height)) \<rparr>"

definition example_part :: part where
  "example_part =
     run_ops example_env [OpenComposite ''explorer'' None []] (new_part example_env None 0 0)"

chapter \<open>Properties of the telemetry utilities\<close>

section \<open>flattenKeys\<close>

text \<open>The test of \<^verbatim>\<open>flatKeys\<close> selects the plain objects.\<close>

lemma flatKeys_test:
  "(truthy v \<and> typeof v = ''object'' \<and> \<not> isArray v) = (\<exists>props. v = JObj props)"
  by (cases v) simp_all

text \<open>What \<^verbatim>\<open>flatKeys\<close> appends: its own rendering of every leaf path, in order.\<close>

lemma flatKeys_paths:
  "flatKeys result prefix v = result @ map (prefix_after prefix) (leaf_paths v)"
  "flatKeys_forEach result prefix props =
     result @ map (prefix_after prefix) (leaf_paths_props props)"
  by (induction result prefix v and result prefix props rule: flatKeys_flatKeys_forEach.induct)
     (simp_all add: prefix_after_def comp_def)

lemma prefix_after_nonempty:
  "p \<noteq> [] \<Longrightarrow> prefix_after p ks = p @ concat (map (\<lambda>k. ''.'' @ k) ks)"
  by (induction ks arbitrary: p) (simp_all add: prefix_after_def)

lemma dot_join_Cons: "dot_join (k # ks) = k @ concat (map (\<lambda>k. ''.'' @ k) ks)"
  by (induction ks arbitrary: k) simp_all

lemma prefix_after_dot_join:
  "k \<noteq> [] \<Longrightarrow> prefix_after [] (k # ks) = dot_join (k # ks)"
  using prefix_after_nonempty[of k ks] by (simp add: prefix_after_def dot_join_Cons)

lemma leaf_paths_props_first:
  "ks \<in> set (leaf_paths_props props) \<Longrightarrow> ks \<noteq> [] \<and> hd ks \<in> fst ` set props"
proof (induction props)
  case Nil
  then show ?case by simp
next
  case (Cons p props)
  then show ?case by (cases p) auto
qed

lemma flattenKeys_not_object:
  "\<forall>props. v \<noteq> JObj props \<Longrightarrow> flattenKeys v = (if truthy v then [[]] else [])"
  by (cases v) (simp_all add: flattenKeys_def)

lemma prefix_after_length:
  "length (prefix_after p ks) \<le> length p + length (concat (map (\<lambda>k. ''.'' @ k) ks))"
proof (induction ks arbitrary: p)
  case Nil
  show ?case by (simp add: prefix_after_def)
next
  case (Cons k ks)
  show ?case
  proof (cases "p = []")
    case True
    with Cons[of k] show ?thesis by (simp add: prefix_after_def)
  next
    case False
    with Cons[of "p @ ''.'' @ k"] show ?thesis by (simp add: prefix_after_def)
  qed
qed

lemma prefix_after_shorter: "length (prefix_after [] ks) \<le> length (dot_join ks)"
proof (cases ks)
  case Nil
  then show ?thesis by (simp add: prefix_after_def)
next
  case (Cons k rest)
  have "prefix_after [] (k # rest) = prefix_after k rest"
    by (simp add: prefix_after_def)
  with prefix_after_length[of k rest] show ?thesis
    unfolding Cons by (simp add: dot_join_Cons)
qed

text \<open>
  The one case in which \<^verbatim>\<open>flatKeys\<close> does not join a key path with dots: the path goes on
  below a first key that is the empty string.
\<close>

lemma prefix_after_eq_dot_join:
  assumes "ks \<noteq> []"
  shows "(prefix_after [] ks = dot_join ks) = (hd ks = [] \<longrightarrow> length ks = 1)"
proof -
  from assms obtain k rest where ks: "ks = k # rest" by (cases ks) auto
  show ?thesis
  proof (cases "k = []")
    case False
    then show ?thesis unfolding ks using prefix_after_dot_join[of k rest] by simp
  next
    case True
    show ?thesis
    proof (cases rest)
      case Nil
      with True show ?thesis unfolding ks by (simp add: prefix_after_def)
    next
      case (Cons k2 rest2)
      have "prefix_after [] ks = prefix_after [] rest"
        unfolding ks True by (simp add: prefix_after_def)
      moreover have "dot_join ks = ''.'' @ dot_join rest"
        unfolding ks True Cons by simp
      ultimately have "length (prefix_after [] ks) < length (dot_join ks)"
        using prefix_after_shorter[of rest] by simp
      then have "prefix_after [] ks \<noteq> dot_join ks" by auto
      then show ?thesis unfolding ks Cons True by simp
    qed
  qed
qed

lemma flattenKeys_object_iff:
  "(flattenKeys (JObj props) = map dot_join (leaf_paths (JObj props)))
     = (\<forall>ks \<in> set (leaf_paths (JObj props)). hd ks = [] \<longrightarrow> length ks = 1)"
proof -
  have "flattenKeys (JObj props) = map (prefix_after []) (leaf_paths_props props)"
    by (simp add: flattenKeys_def flatKeys_paths)
  moreover have "(prefix_after [] ks = dot_join ks) = (hd ks = [] \<longrightarrow> length ks = 1)"
    if "ks \<in> set (leaf_paths_props props)" for ks
    using leaf_paths_props_first[OF that] by (intro prefix_after_eq_dot_join) simp
  ultimately show ?thesis by (auto simp: map_eq_conv)
qed

text \<open>
  Claim C6. A leaf of a tree is a value in it that is not a plain object (an object
  without properties holds no leaf). For an object tree, \<^verbatim>\<open>flattenKeys(tree)\<close> is the
  list of the dot-joined key paths of the leaves, depth first, in the order of the
  keys, exactly when no leaf lies below a top-level key that is the empty string;
  \<^verbatim>\<open>flattenKeys(undefined)\<close> and \<^verbatim>\<open>flattenKeys(null)\<close> are the empty list; and
  \<^verbatim>\<open>flattenKeys({a:{b:1,c:2}, d:3})\<close> is \<^verbatim>\<open>["a.b","a.c","d"]\<close>. Below an empty top-level key
  the prefix of \<^verbatim>\<open>flatKeys\<close> is still the empty string, which the test
  \<^verbatim>\<open>prefix ? `${prefix}.${key}` : key\<close> takes for the top level, and the dot is left out:
  \<^verbatim>\<open>flattenKeys({"": {a: 1}})\<close> is \<^verbatim>\<open>["a"]\<close>, where the dot-joined path of the leaf is
  \<^verbatim>\<open>".a"\<close>. An empty key further down is joined as the claim says:
  \<^verbatim>\<open>flattenKeys({b: {"": {c: 1}}})\<close> is \<^verbatim>\<open>["b..c"]\<close>.
\<close>

theorem flattenKeys_dot_joined_paths:
  "((flattenKeys (JObj props) = map dot_join (leaf_paths (JObj props)))
      = (\<forall>ks \<in> set (leaf_paths (JObj props)). hd ks = [] \<longrightarrow> length ks = 1))
   \<and> flattenKeys JUndefined = []
   \<and> flattenKeys JNull = []
   \<and> flattenKeys (JObj [(''a'', JObj [(''b'', JNum 1), (''c'', JNum 2)]), (''d'', JNum 3)])
       = [''a.b'', ''a.c'', ''d'']
   \<and> flattenKeys (JObj [([], JObj [(''a'', JNum 1)])]) = [''a'']
   \<and> map dot_join (leaf_paths (JObj [([], JObj [(''a'', JNum 1)])])) = [''.a'']
   \<and> flattenKeys (JObj [(''b'', JObj [([], JObj [(''c'', JNum 1)])])]) = [''b..c'']"
proof -
  have "flattenKeys JUndefined = []" "flattenKeys JNull = []"
    by (simp_all add: flattenKeys_def)
  moreover have "flattenKeys (JObj [(''a'', JObj [(''b'', JNum 1), (''c'', JNum 2)]), (''d'', JNum 3)])
       = [''a.b'', ''a.c'', ''d'']"
    by (simp add: flattenKeys_def)
  moreover have "flattenKeys (JObj [([], JObj [(''a'', JNum 1)])]) = [''a'']"
    "map dot_join (leaf_paths (JObj [([], JObj [(''a'', JNum 1)])])) = [''.a'']"
    "flattenKeys (JObj [(''b'', JObj [([], JObj [(''c'', JNum 1)])])]) = [''b..c'']"
    by (simp_all add: flattenKeys_def)
  ultimately show ?thesis using flattenKeys_object_iff[of props] by simp
qed

theorem flattenKeys_dot_joined_paths_witness:
  "flattenKeys (JObj [(''x'', JObj [(''y'', JArr [JNum 1]), ([], JNull)]), ([], JNum 1),
                      (''z'', JObj [])])
     = map dot_join (leaf_paths (JObj [(''x'', JObj [(''y'', JArr [JNum 1]), ([], JNull)]),
                                       ([], JNum 1), (''z'', JObj [])]))
   \<and> map dot_join (leaf_paths (JObj [(''x'', JObj [(''y'', JArr [JNum 1]), ([], JNull)]),
                                     ([], JNum 1), (''z'', JObj [])]))
     = [''x.y'', ''x.'', []]
   \<and> flattenKeys (JObj [([], JObj [([], JObj [(''a'', JNum 1)])])])
     \<noteq> map dot_join (leaf_paths (JObj [([], JObj [([], JObj [(''a'', JNum 1)])])]))"
  using flattenKeys_dot_joined_paths
    [of "[(''x'', JObj [(''y'', JArr [JNum 1]), ([], JNull)]), ([], JNum 1), (''z'', JObj [])]"]
    flattenKeys_dot_joined_paths [of "[([], JObj [([], JObj [(''a'', JNum 1)])])]"]
  by simp

text \<open>An array is a leaf.\<close>

lemma leaf_paths_props_member:
  "map_of props k = Some v \<Longrightarrow> ks \<in> set (leaf_paths v) \<Longrightarrow>
   k # ks \<in> set (leaf_paths_props props)"
proof (induction props)
  case Nil
  then show ?case by simp
next
  case (Cons p props)
  then show ?case by (cases p) (auto split: if_splits)
qed

lemma value_at_leaf_path:
  "value_at v ks = Some (JArr xs) \<Longrightarrow> ks \<in> set (leaf_paths v)"
proof (induction ks arbitrary: v)
  case Nil
  then show ?case by simp
next
  case (Cons k ks)
  then show ?case
    by (cases v) (auto split: option.splits intro: leaf_paths_props_member)
qed

lemma flatKeys_forEach_put:
  "map_of props k = Some v \<Longrightarrow>
   (\<And>result prefix. flatKeys result prefix (f v) = flatKeys result prefix v) \<Longrightarrow>
   flatKeys_forEach result prefix (put_prop props k f) = flatKeys_forEach result prefix props"
proof (induction props arbitrary: result)
  case Nil
  then show ?case by simp
next
  case (Cons p props)
  then show ?case by (cases p) (auto split: if_splits)
qed

lemma flatKeys_put_at:
  "value_at v ks = Some (JArr xs) \<Longrightarrow>
   flatKeys result prefix (put_at ks (JArr ys) v) = flatKeys result prefix v"
proof (induction ks arbitrary: v result prefix)
  case Nil
  then show ?case by simp
next
  case (Cons k ks)
  then obtain props v' where v: "v = JObj props" and look: "map_of props k = Some v'"
     and at: "value_at v' ks = Some (JArr xs)"
    by (cases v) (auto split: option.splits)
  show ?case
    unfolding v using flatKeys_forEach_put[OF look, of "put_at ks (JArr ys)"] Cons.IH[OF at]
    by simp
qed

lemma truthy_put_at:
  "value_at v ks = Some (JArr xs) \<Longrightarrow> truthy (put_at ks (JArr ys) v) \<and> truthy v"
  by (cases ks; cases v) auto

text \<open>
  Claim C10. When a tree holds an array at a key path, \<^verbatim>\<open>flatKeys\<close> pushes the one entry
  \<^verbatim>\<open>prefix\<close> for it, so the output of \<^verbatim>\<open>flattenKeys\<close> contains the path of the array as
  \<^verbatim>\<open>flatKeys\<close> writes it (the keys joined by dots, when the first key is not empty), and
  the output does not change when the array is replaced by any other array: the
  elements are never visited.
\<close>

theorem flatKeys_array_is_leaf:
  assumes "value_at tree ks = Some (JArr xs)"
  shows "prefix_after [] ks \<in> set (flattenKeys tree)
       \<and> (ks \<noteq> [] \<and> hd ks \<noteq> [] \<longrightarrow> prefix_after [] ks = dot_join ks)
       \<and> flattenKeys (put_at ks (JArr ys) tree) = flattenKeys tree
       \<and> flatKeys result prefix (JArr xs) = result @ [prefix]"
proof -
  have "prefix_after [] ks = dot_join ks" if "ks \<noteq> [] \<and> hd ks \<noteq> []"
    using that prefix_after_dot_join[of "hd ks" "tl ks"] by simp
  moreover have "prefix_after [] ks \<in> set (flattenKeys tree)"
    using value_at_leaf_path[OF assms] truthy_put_at[OF assms, of ys]
    by (simp add: flattenKeys_def flatKeys_paths)
  moreover have "flattenKeys (put_at ks (JArr ys) tree) = flattenKeys tree"
    using truthy_put_at[OF assms, of ys] flatKeys_put_at[OF assms, of "[]" "[]" ys]
    by (simp add: flattenKeys_def)
  ultimately show ?thesis by simp
qed

theorem flatKeys_array_is_leaf_witness:
  "value_at (JObj [(''editor'', JObj [(''rulers'', JArr [JNum 80, JObj [(''x'', JNum 1)]])])])
      [''editor'', ''rulers''] = Some (JArr [JNum 80, JObj [(''x'', JNum 1)]])
   \<and> flattenKeys (JObj [(''editor'', JObj [(''rulers'', JArr [JNum 80, JObj [(''x'', JNum 1)]])])])
      = [''editor.rulers'']
   \<and> flattenKeys (JObj [(''editor'', JObj [(''rulers'', JArr [])])]) = [''editor.rulers'']"
  using flatKeys_array_is_leaf
    [of "JObj [(''editor'', JObj [(''rulers'', JArr [JNum 80, JObj [(''x'', JNum 1)]])])]"
        "[''editor'', ''rulers'']" "[JNum 80, JObj [(''x'', JNum 1)]]" "[]" "[]" "[]"]
  by (simp add: flattenKeys_def)

section \<open>flattenValues\<close>

text \<open>What a read finds, as one list: the own properties first, then the inherited members.\<close>

lemma map_of_methods:
  "map_of (map (\<lambda>m. (m, g m)) ms) k = (if k \<in> set ms then Some (g k) else None)"
  by (induction ms) auto

lemma map_of_object_members:
  "map_of (object_members rt proto) k =
     (if k = ''__proto__'' then Some proto
      else if k \<in> set (objectMethods rt) then Some (Builtin (''Object.prototype.'' @ k))
      else None)"
  by (simp add: object_members_def map_of_methods)

lemma map_of_array_members:
  "map_of (array_members rt) k =
     (if k \<in> set (arrayMethods rt) then Some (Builtin (''Array.prototype.'' @ k)) else None)"
  by (simp add: array_members_def map_of_methods)

lemma map_of_indexed:
  "map_of (zip (map f is) (map g is)) k = map_option g (find (\<lambda>i. f i = k) is)"
  by (induction "is") auto

lemma map_of_elements:
  "map_of (zip (map string_of_nat [0..<length xs]) (map Data xs)) k =
     map_option (\<lambda>i. Data (xs ! i)) (find (\<lambda>i. string_of_nat i = k) [0..<length xs])"
proof -
  have "map Data xs = map (\<lambda>i. Data (xs ! i)) [0..<length xs]"
    by (intro nth_equalityI) simp_all
  then show ?thesis
    using map_of_indexed[of string_of_nat "[0..<length xs]" "\<lambda>i. Data (xs ! i)" k] by simp
qed

lemma map_of_own_properties:
  "map_of (map (\<lambda>(k, v). (k, Data v)) props) k = map_option Data (map_of props k)"
  by (induction props) auto

lemma getProp_object:
  "getProp rt (Data (JObj props)) k =
     (case map_of props k of
        Some v \<Rightarrow> Data v
      | None \<Rightarrow> (case map_of (object_members rt ObjectPrototype) k of
                   Some x \<Rightarrow> x | None \<Rightarrow> Data JUndefined))"
  by (cases "map_of props k") (simp_all add: getProp_def getPrototypeOf_def map_of_object_members)

lemma getProp_array:
  "getProp rt (Data (JArr xs)) k =
     (case find (\<lambda>i. string_of_nat i = k) [0..<length xs] of
        Some i \<Rightarrow> Data (xs ! i)
      | None \<Rightarrow> if k = ''length'' then Data (JNum (int (length xs)))
                else (case map_of (array_members rt @ object_members rt ArrayPrototype) k of
                   Some x \<Rightarrow> x | None \<Rightarrow> Data JUndefined))"
  by (cases "find (\<lambda>i. string_of_nat i = k) [0..<length xs]")
     (simp_all add: getProp_def getPrototypeOf_def map_of_object_members map_of_array_members
        map_add_def)

lemma getProp_ObjectPrototype:
  "getProp rt ObjectPrototype k =
     (case map_of (object_members rt (Data JNull)) k of Some x \<Rightarrow> x | None \<Rightarrow> Data JUndefined)"
  by (simp add: getProp_def getPrototypeOf_def map_of_object_members)

lemma getProp_ArrayPrototype:
  "getProp rt ArrayPrototype k =
     (if k = ''length'' then Data (JNum 0)
      else (case map_of (array_members rt @ object_members rt ObjectPrototype) k of
                   Some x \<Rightarrow> x | None \<Rightarrow> Data JUndefined))"
  by (simp add: getProp_def getPrototypeOf_def map_of_object_members map_of_array_members
        map_add_def)

lemma map_of_append_case:
  "map_of (xs @ ys) k = (case map_of xs k of Some v \<Rightarrow> Some v | None \<Rightarrow> map_of ys k)"
  by (simp add: map_add_def split: option.splits)

lemma members_object:
  "map_of (members rt (Data (JObj props))) k =
     (case map_of props k of
        Some v \<Rightarrow> Some (Data v)
      | None \<Rightarrow> map_of (object_members rt ObjectPrototype) k)"
  by (cases "map_of props k") (simp_all add: map_of_append_case map_of_own_properties del: map_of_append)

lemma members_array:
  "map_of (members rt (Data (JArr xs))) k =
     (case find (\<lambda>i. string_of_nat i = k) [0..<length xs] of
        Some i \<Rightarrow> Some (Data (xs ! i))
      | None \<Rightarrow> if k = ''length'' then Some (Data (JNum (int (length xs))))
                else map_of (array_members rt @ object_members rt ArrayPrototype) k)"
  by (cases "find (\<lambda>i. string_of_nat i = k) [0..<length xs]")
     (simp_all add: map_of_append_case map_of_elements del: map_of_append)

lemma getProp_members:
  "truthy_any v \<Longrightarrow> typeof_any v = ''object'' \<Longrightarrow>
   getProp rt v k = (case map_of (members rt v) k of Some x \<Rightarrow> x | None \<Rightarrow> Data JUndefined)"
proof (cases v)
  case (Data d)
  assume "truthy_any v" "typeof_any v = ''object''"
  with Data consider (obj) props where "d = JObj props" | (arr) xs where "d = JArr xs"
    by (cases d) auto
  then show ?thesis
  proof cases
    case obj
    show ?thesis
      unfolding Data obj getProp_object members_object
      by (cases "map_of props k") simp_all
  next
    case arr
    show ?thesis
      unfolding Data arr getProp_array members_array
      by (cases "find (\<lambda>i. string_of_nat i = k) [0..<length xs]") simp_all
  qed
next
  case (Builtin f)
  assume "typeof_any v = ''object''"
  with Builtin show ?thesis by simp
next
  case ObjectPrototype
  then show ?thesis by (simp add: getProp_ObjectPrototype)
next
  case ArrayPrototype
  then show ?thesis by (simp add: getProp_ArrayPrototype)
qed

lemma members_not_object:
  "\<not> (truthy_any v \<and> typeof_any v = ''object'') \<Longrightarrow> members rt v = []"
proof (cases v)
  case (Data d)
  assume "\<not> (truthy_any v \<and> typeof_any v = ''object'')"
  with Data show ?thesis by (cases d) auto
qed auto

lemma descend_members:
  "descend rt v k = (case map_of (members rt v) k of Some x \<Rightarrow> x | None \<Rightarrow> Data JUndefined)"
proof (cases "truthy_any v \<and> typeof_any v = ''object''")
  case True
  then show ?thesis using getProp_members[of v rt k] by (simp add: descend_def)
next
  case False
  from members_not_object[OF this, of rt] False show ?thesis by (auto simp: descend_def)
qed

lemma resolve_undefined:
  "(case resolve rt (Data JUndefined) ks of Some r \<Rightarrow> r | None \<Rightarrow> Data JUndefined) = Data JUndefined"
  by (cases ks) simp_all

text \<open>The inner \<^verbatim>\<open>reduce\<close> resolves the path; a failure is carried to the end as \<^verbatim>\<open>undefined\<close>.\<close>

lemma foldl_descend_resolve:
  "foldl (descend rt) v ks = (case resolve rt v ks of Some r \<Rightarrow> r | None \<Rightarrow> Data JUndefined)"
proof (induction ks arbitrary: v)
  case Nil
  show ?case by simp
next
  case (Cons k ks)
  show ?case
  proof (cases "map_of (members rt v) k")
    case None
    with descend_members[of rt v k] have "descend rt v k = Data JUndefined" by simp
    with None show ?thesis by (simp add: Cons.IH resolve_undefined)
  next
    case (Some x)
    with descend_members[of rt v k] have "descend rt v k = x" by simp
    with Some show ?thesis by (simp add: Cons.IH)
  qed
qed

lemma resolve_defined: "resolve rt v ks = Some r \<Longrightarrow> r \<noteq> Data JUndefined"
  by (induction ks arbitrary: v) (auto split: if_splits option.splits)

lemma split_dot_nonempty: "split_dot s \<noteq> []"
  by (induction s) (auto split: list.splits)

lemma typeof_any_undefined: "(typeof_any v = ''undefined'') = (v = Data JUndefined)"
proof (cases v)
  case (Data d)
  then show ?thesis by (cases d) simp_all
qed simp_all

lemma pushValue_resolve:
  "pushValue rt v array key =
     array @ (case resolve rt (Data v) (split_dot key) of
                Some r \<Rightarrow> [Object ObjectPrototype [(key, r)]] | None \<Rightarrow> [])"
  using resolve_defined[of rt "Data v" "split_dot key"]
  by (auto simp: pushValue_def Let_def foldl_descend_resolve typeof_any_undefined
      split: option.splits)

lemma foldl_pushValue:
  "foldl (pushValue rt v) array keys =
     array @ List.map_filter
       (\<lambda>key. map_option (\<lambda>r. Object ObjectPrototype [(key, r)])
                (resolve rt (Data v) (split_dot key))) keys"
  by (induction keys arbitrary: array)
     (auto simp: pushValue_resolve List.map_filter_simps split: option.splits)

lemma falsy_not_container: "\<not> truthy v \<Longrightarrow> \<not> is_container v"
  by (cases v) simp_all

lemma members_not_container: "\<not> is_container v \<Longrightarrow> members rt (Data v) = []"
  by (cases v) simp_all

lemma resolve_not_container: "\<not> is_container v \<Longrightarrow> resolve rt (Data v) (split_dot key) = None"
  using split_dot_nonempty[of key]
  by (cases "split_dot key") (simp_all add: members_not_container)

lemma map_filter_None: "(\<And>x. f x = None) \<Longrightarrow> List.map_filter f xs = []"
  by (induction xs) (simp_all add: List.map_filter_simps)

lemma flattenValues_map_filter:
  "flattenValues rt v keys =
     List.map_filter
       (\<lambda>key. map_option (\<lambda>r. Object ObjectPrototype [(key, r)])
                (resolve rt (Data v) (split_dot key))) keys"
proof (cases "truthy v")
  case True
  then show ?thesis by (simp add: flattenValues_def foldl_pushValue)
next
  case False
  then have "resolve rt (Data v) (split_dot key) = None" for key
    by (intro resolve_not_container falsy_not_container)
  then show ?thesis using False
    by (simp add: flattenValues_def map_filter_None)
qed

lemma flattenValues_not_container:
  "\<not> is_container v \<Longrightarrow> flattenValues rt v keys = []"
  by (simp add: flattenValues_map_filter resolve_not_container map_filter_None)

text \<open>A path that uses no inherited name is resolved by what the tree holds itself.\<close>

lemma members_own:
  "map_of (members rt (Data v)) k =
     (case own_member v k of
        Some v' \<Rightarrow> Some (Data v')
      | None \<Rightarrow> if k \<in> set (inherited_names rt v) then map_of (members rt (Data v)) k else None)"
proof (cases v)
  case (JObj props)
  show ?thesis unfolding JObj members_object
    by (cases "map_of props k") (simp_all add: map_of_object_members)
next
  case (JArr xs)
  show ?thesis unfolding JArr members_array
    by (cases "find (\<lambda>i. string_of_nat i = k) [0..<length xs]")
       (simp_all add: map_of_append_case map_of_object_members map_of_array_members
          del: map_of_append)
qed simp_all

lemma resolve_own:
  "own_path rt v ks \<Longrightarrow> resolve rt (Data v) ks = map_option Data (own_resolve v ks)"
proof (induction ks arbitrary: v)
  case Nil
  show ?case by simp
next
  case (Cons k ks)
  show ?case
  proof (cases "own_member v k")
    case None
    with Cons.prems have "k \<notin> set (inherited_names rt v)" by simp
    with None members_own[of rt v k] have "map_of (members rt (Data v)) k = None" by simp
    with None show ?thesis by simp
  next
    case (Some v')
    with Cons.prems have "own_path rt v' ks" by simp
    from Cons.IH[OF this] Some members_own[of rt v k] show ?thesis by simp
  qed
qed

lemma map_filter_cong:
  "(\<And>x. x \<in> set xs \<Longrightarrow> f x = g x) \<Longrightarrow> List.map_filter f xs = List.map_filter g xs"
  by (induction xs) (auto simp: List.map_filter_simps split: option.splits)

lemma flattenValues_own:
  assumes "\<forall>path \<in> set whitelist. own_path rt tree (split_dot path)"
  shows "flattenValues rt tree whitelist =
     List.map_filter
       (\<lambda>path. map_option (\<lambda>r. Object ObjectPrototype [(path, Data r)])
                 (own_resolve tree (split_dot path))) whitelist"
proof -
  have "map_option (\<lambda>r. Object ObjectPrototype [(path, r)]) (resolve rt (Data tree) (split_dot path))
      = map_option (\<lambda>r. Object ObjectPrototype [(path, Data r)]) (own_resolve tree (split_dot path))"
    if "path \<in> set whitelist" for path
  proof -
    from assms that have "own_path rt tree (split_dot path)" by simp
    from resolve_own[OF this] show ?thesis by (simp add: option.map_comp comp_def)
  qed
  then show ?thesis
    unfolding flattenValues_map_filter by (intro map_filter_cong) simp
qed

text \<open>
  Claim C7, as amended. For every tree and whitelist, \<^verbatim>\<open>flattenValues(tree, whitelist)\<close>
  goes through the whitelist in its order and resolves each path one segment of
  \<^verbatim>\<open>split('.')\<close> at a time with a property read, which finds what the container reached
  holds itself and also what it inherits: the methods of \<^verbatim>\<open>Object.prototype\<close> and
  \<^verbatim>\<open>Array.prototype\<close>, and under \<^verbatim>\<open>__proto__\<close> its prototype. It skips the path when the
  resolution fails at a segment (nothing under the key, or a value that is not a
  container) or ends at \<^verbatim>\<open>undefined\<close>, and otherwise contributes the object with the one
  property \<^verbatim>\<open>{path: value}\<close>. For a whitelist whose paths use no inherited name this is
  the resolution against what the tree holds itself, as the claim words it; and
  \<^verbatim>\<open>flattenValues({a:{b:1}}, ["a.b","a.z"])\<close> is \<^verbatim>\<open>[{"a.b":1}]\<close> (in a runtime whose
  \<^verbatim>\<open>Object.prototype\<close> has no method \<^verbatim>\<open>z\<close>).
\<close>

theorem flattenValues_resolves_whitelist:
  "flattenValues rt tree whitelist =
     List.map_filter
       (\<lambda>path. map_option (\<lambda>r. Object ObjectPrototype [(path, r)])
                 (resolve rt (Data tree) (split_dot path))) whitelist
   \<and> ((\<forall>path \<in> set whitelist. own_path rt tree (split_dot path)) \<longrightarrow>
        flattenValues rt tree whitelist =
          List.map_filter
            (\<lambda>path. map_option (\<lambda>r. Object ObjectPrototype [(path, Data r)])
                      (own_resolve tree (split_dot path))) whitelist)
   \<and> (''z'' \<notin> set (objectMethods rt) \<longrightarrow>
        flattenValues rt (JObj [(''a'', JObj [(''b'', JNum 1)])]) [''a.b'', ''a.z'']
          = [Object ObjectPrototype [(''a.b'', Data (JNum 1))]])"
proof (intro conjI impI)
  show "flattenValues rt tree whitelist =
     List.map_filter
       (\<lambda>path. map_option (\<lambda>r. Object ObjectPrototype [(path, r)])
                 (resolve rt (Data tree) (split_dot path))) whitelist"
    by (rule flattenValues_map_filter)
next
  assume "\<forall>path \<in> set whitelist. own_path rt tree (split_dot path)"
  then show "flattenValues rt tree whitelist =
          List.map_filter
            (\<lambda>path. map_option (\<lambda>r. Object ObjectPrototype [(path, Data r)])
                      (own_resolve tree (split_dot path))) whitelist"
    by (rule flattenValues_own)
next
  assume "''z'' \<notin> set (objectMethods rt)"
  then have "\<forall>path \<in> set [''a.b'', ''a.z''].
      own_path rt (JObj [(''a'', JObj [(''b'', JNum 1)])]) (split_dot path)"
    by simp
  from flattenValues_own[OF this]
  show "flattenValues rt (JObj [(''a'', JObj [(''b'', JNum 1)])]) [''a.b'', ''a.z'']
          = [Object ObjectPrototype [(''a.b'', Data (JNum 1))]]"
    by (simp add: List.map_filter_simps)
qed

theorem flattenValues_resolves_whitelist_witness:
  "flattenValues ecmascript2015
     (JObj [(''editor'', JObj [(''fontSize'', JNum 12), (''rulers'', JArr [JNum 80, JNum 100]),
                              (''minimap'', JObj [(''enabled'', JBool False)])]),
            (''files'', JNull)])
     [''files.eol'', ''editor.minimap.enabled'', ''editor.tabSize'', ''editor.rulers.1'',
      ''editor.fontSize.x'', ''editor.rulers.length'']
   = [Object ObjectPrototype [(''editor.minimap.enabled'', Data (JBool False))],
      Object ObjectPrototype [(''editor.rulers.1'', Data (JNum 100))],
      Object ObjectPrototype [(''editor.rulers.length'', Data (JNum 2))]]
   \<and> flattenValues ecmascript2015 (JObj [(''a'', JObj [(''b'', JNum 1)])]) [''a.b'', ''a.z'']
       = [Object ObjectPrototype [(''a.b'', Data (JNum 1))]]
   \<and> flattenValues ecmascript2015 (JObj [(''a'', JArr [])])
       [''a.push.name'', ''a.__proto__.__proto__'', ''a.__proto__.length'']
       = [Object ObjectPrototype [(''a.__proto__.__proto__'', ObjectPrototype)],
          Object ObjectPrototype [(''a.__proto__.length'', Data (JNum 0))]]"
proof -
  have om: "''tabSize'' \<notin> set (objectMethods ecmascript2015)"
    "''z'' \<notin> set (objectMethods ecmascript2015)"
    by (simp_all add: ecmascript2015_def)
  have am: "''push'' \<in> set (arrayMethods ecmascript2015)"
    "''__proto__'' \<notin> set (arrayMethods ecmascript2015)"
    by (simp_all add: ecmascript2015_def)
  have sp: "split_dot ''files.eol'' = [''files'', ''eol'']"
    "split_dot ''editor.minimap.enabled'' = [''editor'', ''minimap'', ''enabled'']"
    "split_dot ''editor.tabSize'' = [''editor'', ''tabSize'']"
    "split_dot ''editor.rulers.1'' = [''editor'', ''rulers'', ''1'']"
    "split_dot ''editor.fontSize.x'' = [''editor'', ''fontSize'', ''x'']"
    "split_dot ''editor.rulers.length'' = [''editor'', ''rulers'', ''length'']"
    "split_dot ''a.push.name'' = [''a'', ''push'', ''name'']"
    "split_dot ''a.__proto__.__proto__'' = [''a'', ''__proto__'', ''__proto__'']"
    "split_dot ''a.__proto__.length'' = [''a'', ''__proto__'', ''length'']"
    by simp_all
  have own: "\<forall>path \<in> set [''files.eol'', ''editor.minimap.enabled'', ''editor.tabSize'',
          ''editor.rulers.1'', ''editor.fontSize.x'', ''editor.rulers.length''].
        own_path ecmascript2015
          (JObj [(''editor'', JObj [(''fontSize'', JNum 12), (''rulers'', JArr [JNum 80, JNum 100]),
                              (''minimap'', JObj [(''enabled'', JBool False)])]),
            (''files'', JNull)]) (split_dot path)"
    using om by (simp add: sp del: split_dot.simps)
  have 1: "flattenValues ecmascript2015
     (JObj [(''editor'', JObj [(''fontSize'', JNum 12), (''rulers'', JArr [JNum 80, JNum 100]),
                              (''minimap'', JObj [(''enabled'', JBool False)])]),
            (''files'', JNull)])
     [''files.eol'', ''editor.minimap.enabled'', ''editor.tabSize'', ''editor.rulers.1'',
      ''editor.fontSize.x'', ''editor.rulers.length'']
   = [Object ObjectPrototype [(''editor.minimap.enabled'', Data (JBool False))],
      Object ObjectPrototype [(''editor.rulers.1'', Data (JNum 100))],
      Object ObjectPrototype [(''editor.rulers.length'', Data (JNum 2))]]"
    using flattenValues_resolves_whitelist[THEN conjunct2, THEN conjunct1, THEN mp, OF own]
    by (simp add: List.map_filter_simps sp del: split_dot.simps)
  have 2: "flattenValues ecmascript2015 (JObj [(''a'', JObj [(''b'', JNum 1)])]) [''a.b'', ''a.z'']
       = [Object ObjectPrototype [(''a.b'', Data (JNum 1))]]"
    using flattenValues_resolves_whitelist[THEN conjunct2, THEN conjunct2, THEN mp, OF om(2)] .
  have 3: "flattenValues ecmascript2015 (JObj [(''a'', JArr [])])
       [''a.push.name'', ''a.__proto__.__proto__'', ''a.__proto__.length'']
       = [Object ObjectPrototype [(''a.__proto__.__proto__'', ObjectPrototype)],
          Object ObjectPrototype [(''a.__proto__.length'', Data (JNum 0))]]"
    using flattenValues_resolves_whitelist[THEN conjunct1, of ecmascript2015 "JObj [(''a'', JArr [])]"
        "[''a.push.name'', ''a.__proto__.__proto__'', ''a.__proto__.length'']"] am
    by (simp add: List.map_filter_simps sp members_object members_array map_of_append_case
        map_of_object_members map_of_array_members
        del: split_dot.simps map_of_append members.simps(1,2))
  from 1 2 3 show ?thesis by (intro conjI)
qed

text \<open>
  A whitelist path that names an inherited member is not skipped, although the tree
  holds nothing under it: \<^verbatim>\<open>flattenValues({a:{b:1}}, ["toString", "constructor",
  "a.hasOwnProperty"])\<close> has three entries, the three functions.
\<close>

theorem flattenValues_inherited_counterexample:
  "flattenValues ecmascript2015 (JObj [(''a'', JObj [(''b'', JNum 1)])])
     [''toString'', ''constructor'', ''a.hasOwnProperty'']
   = [Object ObjectPrototype [(''toString'', Builtin ''Object.prototype.toString'')],
      Object ObjectPrototype [(''constructor'', Builtin ''Object.prototype.constructor'')],
      Object ObjectPrototype [(''a.hasOwnProperty'', Builtin ''Object.prototype.hasOwnProperty'')]]
   \<and> own_resolve (JObj [(''a'', JObj [(''b'', JNum 1)])]) (split_dot ''toString'') = None
   \<and> own_resolve (JObj [(''a'', JObj [(''b'', JNum 1)])]) (split_dot ''constructor'') = None
   \<and> own_resolve (JObj [(''a'', JObj [(''b'', JNum 1)])]) (split_dot ''a.hasOwnProperty'') = None"
proof -
  have om: "''toString'' \<in> set (objectMethods ecmascript2015)"
    "''constructor'' \<in> set (objectMethods ecmascript2015)"
    "''hasOwnProperty'' \<in> set (objectMethods ecmascript2015)"
    by (simp_all add: ecmascript2015_def)
  have sp: "split_dot ''toString'' = [''toString'']"
    "split_dot ''constructor'' = [''constructor'']"
    "split_dot ''a.hasOwnProperty'' = [''a'', ''hasOwnProperty'']"
    by simp_all
  show ?thesis
    unfolding flattenValues_map_filter using om
    by (simp add: List.map_filter_simps sp members_object map_of_object_members
        del: split_dot.simps members.simps(1))
qed

section \<open>LogAppender\<close>

text \<open>Every alternative of the expression starts with \<^verbatim>\<open>^\<close>: it matches at the start only.\<close>

lemma match_from_False:
  "\<forall>a \<in> set alts. \<exists>atoms. a = Bol # atoms \<Longrightarrow> match_from alts False s = False"
  by (induction s) (auto simp: list_ex_iff)

lemma regex_test_anchored:
  "\<forall>a \<in> set alts. \<exists>atoms. a = Bol # atoms \<Longrightarrow>
   regex_test alts s = list_ex (\<lambda>a. match_here a True s) alts"
  by (cases s) (simp_all add: regex_test_def match_from_False)

lemma match_here_Lits:
  "match_here (map Lit l @ atoms) b s =
     (take (length l) s = l \<and> match_here atoms (b \<and> l = []) (drop (length l) s))"
proof (induction l arbitrary: b s)
  case Nil
  show ?case by simp
next
  case (Cons c l)
  show ?case
  proof (cases s)
    case Nil
    then show ?thesis by simp
  next
    case (Cons d s')
    then show ?thesis using Cons.IH[of False s'] by auto
  qed
qed

lemma match_exact:
  "match_here (Bol # map Lit l @ [Eol]) True s = (s = l)"
proof -
  have "(take (length l) s = l \<and> drop (length l) s = []) = (s = l)"
    by (metis append_take_drop_id append_Nil2 drop_all order_refl take_all)
  then show ?thesis by (simp add: match_here_Lits)
qed

lemma match_prefix:
  "match_here (Bol # map Lit l) True s = (take (length l) s = l)"
  using match_here_Lits[of l "[]" True s] by simp

lemma regex_test_common: "regex_test commonPropertiesRegex k = is_common_property k"
proof -
  have "\<forall>a \<in> set commonPropertiesRegex. \<exists>atoms. a = Bol # atoms"
    by (simp add: commonPropertiesRegex_def)
  from regex_test_anchored[OF this]
  have "regex_test commonPropertiesRegex k =
          list_ex (\<lambda>a. match_here a True k) commonPropertiesRegex" .
  also have "\<dots> = (match_here (Bol # map Lit ''sessionID'' @ [Eol]) True k
      \<or> match_here (Bol # map Lit ''version'' @ [Eol]) True k
      \<or> match_here (Bol # map Lit ''timestamp'' @ [Eol]) True k
      \<or> match_here (Bol # map Lit ''commitHash'' @ [Eol]) True k
      \<or> match_here (Bol # map Lit ''common.'') True k)"
    by (simp add: commonPropertiesRegex_def del: match_here.simps map_eq_Cons_conv list.map)
  also have "\<dots> = is_common_property k"
    unfolding match_exact match_prefix by (simp add: is_common_property_def eval_nat_numeral)
  finally show ?thesis .
qed

text \<open>
  Assigning to a key that the object does not hold yet. The accessor is found under
  \<^verbatim>\<open>__proto__\<close> only, and only as long as the prototype is \<^verbatim>\<open>Object.prototype\<close> or has it
  at the end of its chain with no \<^verbatim>\<open>__proto__\<close> of its own before it: under any other key
  the property is added.
\<close>

lemma lookup_not_accessor:
  assumes "k \<noteq> ''__proto__''"
    and "p = ObjectPrototype \<or> (\<exists>v. p = Data v \<and> is_container v)"
  shows "lookup rt (p # prototypes p) k \<noteq> Some ProtoAccessor"
proof -
  from assms(2) consider "p = ObjectPrototype" | props where "p = Data (JObj props)"
    | xs where "p = Data (JArr xs)"
  proof (elim disjE exE conjE)
    fix v assume a: "p = Data v" "is_container v"
      and b: "\<And>props. p = Data (JObj props) \<Longrightarrow> thesis" "\<And>xs. p = Data (JArr xs) \<Longrightarrow> thesis"
    then show thesis by (cases v) auto
  qed
  then show ?thesis
  proof cases
    case 1
    with assms(1) show ?thesis by simp
  next
    case 2
    with assms(1) show ?thesis by (cases "map_of props k") simp_all
  next
    case 3
    with assms(1) show ?thesis
      by (cases "find (\<lambda>i. string_of_nat i = k) [0..<length xs]") simp_all
  qed
qed

lemma setProp_new:
  assumes "k \<notin> fst ` set ps" and "k \<noteq> ''__proto__''"
    and "p = ObjectPrototype \<or> p = Data JNull \<or> (\<exists>v. p = Data v \<and> is_container v)"
  shows "setProp rt (Object p ps) k v = Object p (ps @ [(k, v)])"
proof (cases "p = Data JNull")
  case True
  with assms(1) show ?thesis by (simp add: setProp_def)
next
  case False
  with assms(3) have "p = ObjectPrototype \<or> (\<exists>v. p = Data v \<and> is_container v)" by simp
  from lookup_not_accessor[OF assms(2) this, of rt]
  have "lookup rt (p # prototypes p) k = None \<or> (\<exists>x. lookup rt (p # prototypes p) k = Some (Value x))"
    by (cases "lookup rt (p # prototypes p) k") (auto intro: property.exhaust)
  with assms(1) False show ?thesis
    by (auto simp: setProp_def simp del: lookup.simps)
qed

lemma setProp_proto:
  "''__proto__'' \<notin> fst ` set ps \<Longrightarrow>
   setProp rt (Object ObjectPrototype ps) ''__proto__'' (Data v) =
     Object (if is_container v \<or> v = JNull then Data v else ObjectPrototype) ps"
  by (cases v) (simp_all add: setProp_def)

lemma getProp_own: "map_of props k = Some v \<Longrightarrow> getProp rt (Data (JObj props)) k = Data v"
  by (simp add: getProp_def)

lemma not_common_proto: "\<not> is_common_property ''__proto__''"
  by (simp add: is_common_property_def)

text \<open>
  The loop over the keys of an object: the properties that are not common are added
  in their order, but for \<^verbatim>\<open>__proto__\<close>, whose value goes to the setter.
\<close>

lemma strip_forEach_filter:
  assumes "distinct (map fst props)"
  shows "set ps \<subseteq> set props \<Longrightarrow> distinct (map fst ps) \<Longrightarrow>
         fst ` set acc \<inter> fst ` set ps = {} \<Longrightarrow> ''__proto__'' \<notin> fst ` set acc \<Longrightarrow>
         p = ObjectPrototype \<or> ''__proto__'' \<notin> fst ` set ps
           \<and> (p = Data JNull \<or> (\<exists>v. p = Data v \<and> is_container v)) \<Longrightarrow>
         strip_forEach rt (JObj props) (Object p acc) (map fst ps) =
           Object (case map_of ps ''__proto__'' of
                     Some v \<Rightarrow> if is_container v \<or> v = JNull then Data v else p
                   | None \<Rightarrow> p)
             (acc @ map (\<lambda>(k, v). (k, Data v))
                      (filter (\<lambda>(k, v). \<not> is_common_property k \<and> k \<noteq> ''__proto__'') ps))"
proof (induction ps arbitrary: acc p)
  case Nil
  then show ?case by simp
next
  case (Cons kv ps)
  obtain k v where kv: "kv = (k, v)" by (cases kv)
  from Cons.prems kv have "(k, v) \<in> set props" by simp
  with assms have "map_of props k = Some v" by simp
  then have get: "getProp rt (Data (JObj props)) k = Data v" by (rule getProp_own)
  from Cons.prems kv have fresh: "k \<notin> fst ` set acc" by auto
  from Cons.prems kv have knew: "k \<notin> fst ` set ps" by auto
  have sub: "set ps \<subseteq> set props" "distinct (map fst ps)" using Cons.prems by simp_all
  have disj: "fst ` set acc \<inter> fst ` set ps = {}" using Cons.prems by auto
  have okp: "p = ObjectPrototype \<or> p = Data JNull \<or> (\<exists>v. p = Data v \<and> is_container v)"
    using Cons.prems(5) by auto
  show ?case
  proof (cases "is_common_property k")
    case True
    with not_common_proto have ne: "k \<noteq> ''__proto__''" by auto
    with Cons.prems(5) kv
    have "p = ObjectPrototype \<or> ''__proto__'' \<notin> fst ` set ps
           \<and> (p = Data JNull \<or> (\<exists>v. p = Data v \<and> is_container v))"
      by auto
    from Cons.IH[OF sub disj Cons.prems(4) this] True ne show ?thesis
      by (simp add: kv regex_test_common)
  next
    case False
    show ?thesis
    proof (cases "k = ''__proto__''")
      case True
      with Cons.prems(5) kv have p: "p = ObjectPrototype" by auto
      from True knew have noproto: "''__proto__'' \<notin> fst ` set ps" by simp
      then have none: "map_of ps ''__proto__'' = None"
        by (simp add: map_of_eq_None_iff)
      let ?p' = "if is_container v \<or> v = JNull then Data v else ObjectPrototype"
      have step: "setProp rt (Object p acc) k (Data v) = Object ?p' acc"
        unfolding p True using Cons.prems(4) by (rule setProp_proto)
      have "?p' = ObjectPrototype \<or> ''__proto__'' \<notin> fst ` set ps
           \<and> (?p' = Data JNull \<or> (\<exists>v. ?p' = Data v \<and> is_container v))"
        using noproto by auto
      from Cons.IH[OF sub disj Cons.prems(4) this] False True none p show ?thesis
        by (simp add: kv regex_test_common get[unfolded True] step[unfolded True p])
    next
      case ne: False
      have step: "setProp rt (Object p acc) k (Data v) = Object p (acc @ [(k, Data v)])"
        using fresh ne okp by (rule setProp_new)
      have disj': "fst ` set (acc @ [(k, Data v)]) \<inter> fst ` set ps = {}"
        using disj knew by auto
      have np: "''__proto__'' \<notin> fst ` set (acc @ [(k, Data v)])"
        using Cons.prems(4) ne by auto
      from Cons.prems(5) kv
      have "p = ObjectPrototype \<or> ''__proto__'' \<notin> fst ` set ps
           \<and> (p = Data JNull \<or> (\<exists>v. p = Data v \<and> is_container v))"
        by auto
      from Cons.IH[OF sub disj' np this] False ne show ?thesis
        by (simp add: kv regex_test_common get step)
    qed
  qed
qed

lemma LogAppender_log_object:
  assumes "distinct (map fst props)"
  shows "LogAppender_log rt eventName (JObj props) logService =
           (Inr (), logService @
              [(''telemetry/'' @ eventName,
                Object (forwarded_prototype props)
                  (map (\<lambda>(k, v). (k, Data v))
                     (filter (\<lambda>(k, v). \<not> is_common_property k \<and> k \<noteq> ''__proto__'') props)))])"
  using strip_forEach_filter[OF assms, of props "[]" ObjectPrototype rt] assms
  by (simp add: LogAppender_log_def forwarded_prototype_def)



lemma LogAppender_log_throws:
  "(fst (LogAppender_log rt e d ls) = Inl TypeError) = (d = JUndefined \<or> d = JNull)"
  by (cases d) (simp_all add: LogAppender_log_def)

lemma LogAppender_log_returns:
  "d \<noteq> JUndefined \<Longrightarrow> d \<noteq> JNull \<Longrightarrow>
   \<exists>stripped. LogAppender_log rt e d ls = (Inr (), ls @ [(''telemetry/'' @ e, stripped)])"
  by (cases d) (simp_all add: LogAppender_log_def)




section \<open>combinedAppender\<close>

lemma forEach_log_returns:
  "fst (log a e d w) = Inr () \<Longrightarrow>
   forEach_log (a # appenders) e d w = forEach_log appenders e d (snd (log a e d w))"
  by (cases "log a e d w") auto

lemma forEach_log_throws:
  "fst (log a e d w) = Inl err \<Longrightarrow> forEach_log (a # post) e d w = log a e d w"
  by (cases "log a e d w") auto

text \<open>The states of a combined \<^verbatim>\<open>log\<close>: each call starts where the call before it ended.\<close>

lemma log_state_0: "log_state appenders e d w 0 = w"
  by (simp add: log_state_def)

lemma log_state_Suc:
  "n < length appenders \<Longrightarrow>
   log_state appenders e d w (Suc n) =
     snd (log (appenders ! n) e d (log_state appenders e d w n))"
  by (simp add: log_state_def take_Suc_conv_app_nth)

lemma log_state_Cons:
  "log_state (a # appenders) e d w (Suc n) = log_state appenders e d (snd (log a e d w)) n"
  by (simp add: log_state_def)

lemma forEach_log_all:
  "\<forall>i < length appenders. fst (log (appenders ! i) e d (log_state appenders e d w i)) = Inr () \<Longrightarrow>
   forEach_log appenders e d w = (Inr (), log_state appenders e d w (length appenders))"
proof (induction appenders arbitrary: w)
  case Nil
  show ?case by (simp add: log_state_def)
next
  case (Cons a appenders)
  from Cons.prems have "fst (log (( a # appenders) ! 0) e d (log_state (a # appenders) e d w 0)) = Inr ()"
    by blast
  then have first: "fst (log a e d w) = Inr ()" by (simp add: log_state_0)
  have "fst (log (appenders ! i) e d (log_state appenders e d (snd (log a e d w)) i)) = Inr ()"
    if "i < length appenders" for i
  proof -
    from that have "Suc i < length (a # appenders)" by simp
    with Cons.prems
    have "fst (log ((a # appenders) ! Suc i) e d (log_state (a # appenders) e d w (Suc i))) = Inr ()"
      by blast
    then show ?thesis by (simp add: log_state_Cons)
  qed
  then have "forEach_log appenders e d (snd (log a e d w)) =
      (Inr (), log_state appenders e d (snd (log a e d w)) (length appenders))"
    by (intro Cons.IH) simp
  with forEach_log_returns[OF first] show ?case by (simp add: log_state_Cons)
qed

lemma forEach_log_first_throw:
  "n < length appenders \<Longrightarrow>
   \<forall>i < n. fst (log (appenders ! i) e d (log_state appenders e d w i)) = Inr () \<Longrightarrow>
   fst (log (appenders ! n) e d (log_state appenders e d w n)) = Inl err \<Longrightarrow>
   forEach_log appenders e d w = log (appenders ! n) e d (log_state appenders e d w n)"
proof (induction appenders arbitrary: w n)
  case Nil
  then show ?case by simp
next
  case (Cons a appenders)
  show ?case
  proof (cases n)
    case 0
    with Cons.prems(3) have "fst (log a e d w) = Inl err" by (simp add: log_state_0)
    from forEach_log_throws[OF this] 0 show ?thesis by (simp add: log_state_0)
  next
    case (Suc m)
    with Cons.prems(2)
    have "fst (log (( a # appenders) ! 0) e d (log_state (a # appenders) e d w 0)) = Inr ()"
      by blast
    then have first: "fst (log a e d w) = Inr ()" by (simp add: log_state_0)
    have m: "m < length appenders" using Cons.prems(1) Suc by simp
    have before: "\<forall>i < m. fst (log (appenders ! i) e d
        (log_state appenders e d (snd (log a e d w)) i)) = Inr ()"
    proof (intro allI impI)
      fix i assume "i < m"
      then have "Suc i < n" using Suc by simp
      with Cons.prems(2)
      have "fst (log ((a # appenders) ! Suc i) e d (log_state (a # appenders) e d w (Suc i))) = Inr ()"
        by blast
      then show "fst (log (appenders ! i) e d
        (log_state appenders e d (snd (log a e d w)) i)) = Inr ()"
        by (simp add: log_state_Cons)
    qed
    have thrower: "fst (log (appenders ! m) e d
        (log_state appenders e d (snd (log a e d w)) m)) = Inl err"
      using Cons.prems(3) Suc by (simp add: log_state_Cons)
    from Cons.IH[OF m before thrower] forEach_log_returns[OF first] Suc show ?thesis
      by (simp add: log_state_Cons)
  qed
qed

lemma not_returned: "r \<noteq> Inr () \<Longrightarrow> \<exists>err. r = Inl err"
  by (cases r) auto

text \<open>Every combined \<^verbatim>\<open>log\<close> is of one of the two kinds: all calls return, or one is the first to throw.\<close>

lemma forEach_log_cases:
  "(\<forall>i < length appenders. fst (log (appenders ! i) e d (log_state appenders e d w i)) = Inr ())
   \<or> (\<exists>n < length appenders.
        (\<forall>i < n. fst (log (appenders ! i) e d (log_state appenders e d w i)) = Inr ())
        \<and> (\<exists>err. fst (log (appenders ! n) e d (log_state appenders e d w n)) = Inl err))"
proof (cases "\<forall>i < length appenders.
    fst (log (appenders ! i) e d (log_state appenders e d w i)) = Inr ()")
  case True
  then show ?thesis by simp
next
  case False
  let ?bad = "\<lambda>i. i < length appenders
      \<and> fst (log (appenders ! i) e d (log_state appenders e d w i)) \<noteq> Inr ()"
  from False have "\<exists>i. ?bad i" by auto
  then obtain n where n: "?bad n" and least: "\<forall>m < n. \<not> ?bad m"
    using exists_least_iff[of ?bad] by auto
  from n not_returned
  obtain err where "fst (log (appenders ! n) e d (log_state appenders e d w n)) = Inl err"
    by blast
  moreover from least n
  have "\<forall>i < n. fst (log (appenders ! i) e d (log_state appenders e d w i)) = Inr ()"
    by auto
  ultimately show ?thesis using n by blast
qed

lemma forEach_log_returns_iff:
  "(fst (forEach_log appenders e d w) = Inr ())
     = (\<forall>i < length appenders. fst (log (appenders ! i) e d (log_state appenders e d w i)) = Inr ())"
proof
  assume r: "fst (forEach_log appenders e d w) = Inr ()"
  from forEach_log_cases[of appenders e d w]
  show "\<forall>i < length appenders. fst (log (appenders ! i) e d (log_state appenders e d w i)) = Inr ()"
  proof
    assume "\<exists>n < length appenders.
        (\<forall>i < n. fst (log (appenders ! i) e d (log_state appenders e d w i)) = Inr ())
        \<and> (\<exists>err. fst (log (appenders ! n) e d (log_state appenders e d w n)) = Inl err)"
    then obtain n err where "n < length appenders"
      "\<forall>i < n. fst (log (appenders ! i) e d (log_state appenders e d w i)) = Inr ()"
      "fst (log (appenders ! n) e d (log_state appenders e d w n)) = Inl err"
      by blast
    from forEach_log_first_throw[OF this] this(3) r show ?thesis by simp
  qed
next
  assume "\<forall>i < length appenders. fst (log (appenders ! i) e d (log_state appenders e d w i)) = Inr ()"
  from forEach_log_all[OF this] show "fst (forEach_log appenders e d w) = Inr ()" by simp
qed

lemma combined_log: "log (combinedAppender appenders) = forEach_log appenders"
  by (simp add: combinedAppender_def)

lemma fulfilled_values_all:
  "fulfilled_values sts = Some vs \<Longrightarrow> \<forall>st \<in> set sts. \<exists>v. st = Fulfilled v"
  by (induction sts arbitrary: vs rule: fulfilled_values.induct) auto

lemma settle_all_Fulfilled:
  "settle_all sts = Fulfilled vs \<Longrightarrow> \<forall>st \<in> set sts. \<exists>v. st = Fulfilled v"
  by (auto simp: settle_all_def split: option.splits dest: fulfilled_values_all)

lemma promise_all_Fulfilled:
  "promise_all ps t = Fulfilled vs \<Longrightarrow>
   \<exists>t' \<le> t. settle_all (map (\<lambda>p. p t') ps) = Fulfilled vs"
proof (induction t)
  case 0
  then show ?case by auto
next
  case (Suc t)
  show ?case
  proof (cases "promise_all ps t")
    case Pending
    with Suc.prems show ?thesis by auto
  next
    case (Fulfilled x)
    with Suc.prems have "promise_all ps t = Fulfilled vs" by simp
    from Suc.IH[OF this] show ?thesis using le_Suc_eq by blast
  next
    case (Rejected x)
    with Suc.prems show ?thesis by simp
  qed
qed

lemma promise_all_waits:
  assumes "promise_all ps t = Fulfilled vs"
  shows "\<exists>t' \<le> t. \<forall>p \<in> set ps. \<exists>v. p t' = Fulfilled v"
proof -
  from promise_all_Fulfilled[OF assms] obtain t' where "t' \<le> t"
    and "settle_all (map (\<lambda>p. p t') ps) = Fulfilled vs" by blast
  from settle_all_Fulfilled[OF this(2)] \<open>t' \<le> t\<close> show ?thesis by auto
qed

lemma combined_dispose:
  "map_dispose appenders w = (Inr ds, w') \<Longrightarrow>
   dispose (combinedAppender appenders) w =
     (Inr (Promise (promise_all (map as_promise ds))), w')"
  by (simp add: combinedAppender_def)

lemma map_dispose_length:
  "map_dispose appenders w = (Inr ds, w') \<Longrightarrow> length ds = length appenders"
proof (induction appenders arbitrary: w ds)
  case Nil
  then show ?case by simp
next
  case (Cons a appenders)
  then show ?case
    by (auto split: prod.splits sum.splits)
qed

text \<open>
  Claim C9, as amended. \<^verbatim>\<open>combinedAppender(...appenders).log(e, d)\<close> calls \<^verbatim>\<open>a.log(e, d)\<close> on
  the wrapped appenders in list order, each call in the state that the call before it
  has left, up to the first call that throws. When no call throws, every appender is
  called and the combined \<^verbatim>\<open>log\<close> returns in the state that the last call leaves; when
  the call of an appender is the first to throw, the combined \<^verbatim>\<open>log\<close> ends as that call
  does, with its exception and in the state that it leaves, so the appenders after it
  are not called. Every call of the combined \<^verbatim>\<open>log\<close> is of one of these two kinds.
  When every wrapped \<^verbatim>\<open>dispose()\<close> returns, the combined \<^verbatim>\<open>dispose()\<close> returns the
  \<^verbatim>\<open>Promise.all\<close> of the results, one for each appender, and at any instant at which that
  promise is fulfilled each wrapped result has been fulfilled (a result that is not a
  promise counts as fulfilled).
\<close>

theorem combinedAppender_fans_out:
  "log_state appenders e d w 0 = w
   \<and> (\<forall>i < length appenders.
        log_state appenders e d w (Suc i)
          = snd (log (appenders ! i) e d (log_state appenders e d w i)))
   \<and> ((\<forall>i < length appenders.
          fst (log (appenders ! i) e d (log_state appenders e d w i)) = Inr ()) \<longrightarrow>
      log (combinedAppender appenders) e d w
        = (Inr (), log_state appenders e d w (length appenders)))
   \<and> (n < length appenders
        \<and> (\<forall>i < n. fst (log (appenders ! i) e d (log_state appenders e d w i)) = Inr ())
        \<and> fst (log (appenders ! n) e d (log_state appenders e d w n)) = Inl err \<longrightarrow>
      log (combinedAppender appenders) e d w
        = log (appenders ! n) e d (log_state appenders e d w n))
   \<and> ((\<forall>i < length appenders.
          fst (log (appenders ! i) e d (log_state appenders e d w i)) = Inr ())
      \<or> (\<exists>n < length appenders.
           (\<forall>i < n. fst (log (appenders ! i) e d (log_state appenders e d w i)) = Inr ())
           \<and> (\<exists>err. fst (log (appenders ! n) e d (log_state appenders e d w n)) = Inl err)))
   \<and> (map_dispose appenders w = (Inr ds, w') \<longrightarrow>
        dispose (combinedAppender appenders) w =
          (Inr (Promise (promise_all (map as_promise ds))), w')
        \<and> length ds = length appenders
        \<and> (\<forall>t vs. promise_all (map as_promise ds) t = Fulfilled vs \<longrightarrow>
              (\<exists>t' \<le> t. \<forall>r \<in> set ds. \<exists>v. as_promise r t' = Fulfilled v)))"
proof (intro conjI impI allI)
  show "log_state appenders e d w 0 = w" by (rule log_state_0)
next
  fix i assume "i < length appenders"
  then show "log_state appenders e d w (Suc i)
          = snd (log (appenders ! i) e d (log_state appenders e d w i))"
    by (rule log_state_Suc)
next
  assume "\<forall>i < length appenders.
          fst (log (appenders ! i) e d (log_state appenders e d w i)) = Inr ()"
  from forEach_log_all[OF this]
  show "log (combinedAppender appenders) e d w
        = (Inr (), log_state appenders e d w (length appenders))"
    by (simp add: combined_log)
next
  assume "n < length appenders
        \<and> (\<forall>i < n. fst (log (appenders ! i) e d (log_state appenders e d w i)) = Inr ())
        \<and> fst (log (appenders ! n) e d (log_state appenders e d w n)) = Inl err"
  then have "n < length appenders"
    "\<forall>i < n. fst (log (appenders ! i) e d (log_state appenders e d w i)) = Inr ()"
    "fst (log (appenders ! n) e d (log_state appenders e d w n)) = Inl err"
    by simp_all
  from forEach_log_first_throw[OF this]
  show "log (combinedAppender appenders) e d w
        = log (appenders ! n) e d (log_state appenders e d w n)"
    by (simp add: combined_log)
next
  show "(\<forall>i < length appenders.
          fst (log (appenders ! i) e d (log_state appenders e d w i)) = Inr ())
      \<or> (\<exists>n < length appenders.
           (\<forall>i < n. fst (log (appenders ! i) e d (log_state appenders e d w i)) = Inr ())
           \<and> (\<exists>err. fst (log (appenders ! n) e d (log_state appenders e d w n)) = Inl err))"
    by (rule forEach_log_cases)
next
  assume "map_dispose appenders w = (Inr ds, w')"
  then show "dispose (combinedAppender appenders) w =
          (Inr (Promise (promise_all (map as_promise ds))), w')"
    by (rule combined_dispose)
next
  assume "map_dispose appenders w = (Inr ds, w')"
  then show "length ds = length appenders" by (rule map_dispose_length)
next
  fix t vs
  assume "promise_all (map as_promise ds) t = Fulfilled vs"
  from promise_all_waits[OF this]
  show "\<exists>t' \<le> t. \<forall>r \<in> set ds. \<exists>v. as_promise r t' = Fulfilled v"
    by auto
qed

text \<open>
  A combined appender over a recording appender, a \<^verbatim>\<open>LogAppender\<close> and the recording
  appender again. On an event object all three are called, in order. On \<^verbatim>\<open>undefined\<close>
  data the first call is recorded, the \<^verbatim>\<open>LogAppender\<close> throws, and the third call is
  not made. The combined \<^verbatim>\<open>dispose\<close> is fulfilled at once, as the three results are.
\<close>

theorem combinedAppender_fans_out_witness:
  "log (combinedAppender [recorder, LogAppender ecmascript2015, recorder]) ''ev''
       (JObj [(''version'', JNum 1), (''foo'', JNum 2)]) []
     = (Inr (), [(''recorded/ev'',
                  Object ObjectPrototype
                    [(''data'', Data (JObj [(''version'', JNum 1), (''foo'', JNum 2)]))]),
                 (''telemetry/ev'', Object ObjectPrototype [(''foo'', Data (JNum 2))]),
                 (''recorded/ev'',
                  Object ObjectPrototype
                    [(''data'', Data (JObj [(''version'', JNum 1), (''foo'', JNum 2)]))])])
   \<and> log (combinedAppender [recorder, LogAppender ecmascript2015, recorder]) ''ev'' JUndefined []
     = (Inl TypeError, [(''recorded/ev'', Object ObjectPrototype [(''data'', Data JUndefined)])])
   \<and> dispose (combinedAppender [recorder, LogAppender ecmascript2015, recorder]) []
     = (Inr (Promise (promise_all
          [\<lambda>t. Fulfilled JUndefined, \<lambda>t. Fulfilled JUndefined, \<lambda>t. Fulfilled JUndefined])), [])
   \<and> promise_all [\<lambda>t. Fulfilled JUndefined, \<lambda>t. Fulfilled JUndefined, \<lambda>t. Fulfilled JUndefined] 0
     = Fulfilled (JArr [JUndefined, JUndefined, JUndefined])"
proof -
  let ?aps = "[recorder, LogAppender ecmascript2015, recorder]"
  let ?d = "JObj [(''version'', JNum 1), (''foo'', JNum 2)]"
  have la: "log (LogAppender ecmascript2015) ''ev'' ?d w
      = (Inr (), w @ [(''telemetry/ev'', Object ObjectPrototype [(''foo'', Data (JNum 2))])])" for w
    using LogAppender_log_object[of "[(''version'', JNum 1), (''foo'', JNum 2)]" ecmascript2015 "''ev''" w]
    by (simp add: LogAppender_def is_common_property_def forwarded_prototype_def)
  have lu: "log (LogAppender ecmascript2015) ''ev'' JUndefined w = (Inl TypeError, w)" for w
    by (simp add: LogAppender_def LogAppender_log_def)
  have lr: "log recorder e d w
      = (Inr (), w @ [(''recorded/'' @ e, Object ObjectPrototype [(''data'', Data d)])])" for e d w
    by (simp add: recorder_def)
  have all: "\<forall>i < length ?aps. fst (log (?aps ! i) ''ev'' ?d (log_state ?aps ''ev'' ?d [] i)) = Inr ()"
    by (simp add: All_less_Suc log_state_def la lr)
  have 1: "log (combinedAppender ?aps) ''ev'' ?d []
     = (Inr (), [(''recorded/ev'', Object ObjectPrototype [(''data'', Data ?d)]),
                 (''telemetry/ev'', Object ObjectPrototype [(''foo'', Data (JNum 2))]),
                 (''recorded/ev'', Object ObjectPrototype [(''data'', Data ?d)])])"
    using combinedAppender_fans_out[THEN conjunct2, THEN conjunct2, THEN conjunct1, THEN mp, OF all]
    by (simp add: log_state_def la lr)
  have thrower: "1 < length ?aps
      \<and> (\<forall>i < 1. fst (log (?aps ! i) ''ev'' JUndefined (log_state ?aps ''ev'' JUndefined [] i)) = Inr ())
      \<and> fst (log (?aps ! 1) ''ev'' JUndefined (log_state ?aps ''ev'' JUndefined [] 1)) = Inl TypeError"
    by (simp add: log_state_def lu lr)
  have 2: "log (combinedAppender ?aps) ''ev'' JUndefined []
     = (Inl TypeError, [(''recorded/ev'', Object ObjectPrototype [(''data'', Data JUndefined)])])"
    using combinedAppender_fans_out[THEN conjunct2, THEN conjunct2, THEN conjunct2, THEN conjunct1,
        THEN mp, OF thrower]
    by (simp add: log_state_def lu lr)
  have md: "map_dispose ?aps [] = (Inr [NoPromise, Promise (\<lambda>t. Fulfilled JUndefined), NoPromise], [])"
    by (simp add: recorder_def LogAppender_def)
  have 3: "dispose (combinedAppender ?aps) []
     = (Inr (Promise (promise_all
          [\<lambda>t. Fulfilled JUndefined, \<lambda>t. Fulfilled JUndefined, \<lambda>t. Fulfilled JUndefined])), [])"
    using combinedAppender_fans_out[THEN conjunct2, THEN conjunct2, THEN conjunct2, THEN conjunct2,
        THEN conjunct2, THEN mp, OF md, THEN conjunct1]
    by simp
  have 4: "promise_all [\<lambda>t. Fulfilled JUndefined, \<lambda>t. Fulfilled JUndefined, \<lambda>t. Fulfilled JUndefined] 0
     = Fulfilled (JArr [JUndefined, JUndefined, JUndefined])"
    by (simp add: settle_all_def)
  from 1 2 3 4 show ?thesis by (intro conjI)
qed

text \<open>
  \<^verbatim>\<open>LogAppender.log\<close> throws on \<^verbatim>\<open>undefined\<close> data (\<^verbatim>\<open>Object.keys(undefined)\<close>), so in
  \<^verbatim>\<open>combinedAppender(logAppender, recorder).log("ev", undefined)\<close> the second appender,
  which would record the call, is never called.
\<close>

theorem combinedAppender_skips_after_throw_counterexample:
  "log (combinedAppender [LogAppender ecmascript2015, recorder]) ''ev'' JUndefined []
     = (Inl TypeError, [])
   \<and> log recorder ''ev'' JUndefined []
     = (Inr (), [(''recorded/ev'', Object ObjectPrototype [(''data'', Data JUndefined)])])"
  by (simp add: combinedAppender_def LogAppender_def LogAppender_log_def recorder_def)

section \<open>Totality\<close>

text \<open>Where \<^verbatim>\<open>flatKeys\<close> calls \<^verbatim>\<open>Object.keys\<close> and where \<^verbatim>\<open>flattenValues\<close> reads a property.\<close>

lemma flatKeys_keys:
  "truthy v \<Longrightarrow> typeof v = ''object'' \<Longrightarrow> \<exists>keys. object_keys v = Inr keys"
  by (cases v) simp_all

lemma descend_reads:
  "truthy_any tmp \<Longrightarrow> typeof_any tmp = ''object'' \<Longrightarrow>
   tmp \<noteq> Data JUndefined \<and> tmp \<noteq> Data JNull"
  by auto

lemma map_filter_entries:
  "o' \<in> set (List.map_filter (\<lambda>x. map_option (g x) (f x)) xs) \<Longrightarrow>
   \<exists>x r. x \<in> set xs \<and> f x = Some r \<and> o' = g x r"
  by (induction xs) (auto simp: List.map_filter_simps split: option.splits)

lemma map_filter_length: "length (List.map_filter f xs) \<le> length xs"
  by (induction xs) (auto simp: List.map_filter_simps split: option.splits)

lemma flattenValues_entries:
  "o' \<in> set (flattenValues rt v keys) \<Longrightarrow>
   \<exists>key r. key \<in> set keys \<and> r \<noteq> Data JUndefined \<and> o' = Object ObjectPrototype [(key, r)]"
  unfolding flattenValues_map_filter
  by (drule map_filter_entries) (auto dest: resolve_defined)

lemma combined_LogAppender_throws:
  assumes "n < length sinks" and "sinks ! n = LogAppender rt"
    and "\<forall>i < n. fst (log (sinks ! i) e d (log_state sinks e d ls i)) = Inr ()"
    and "d = JUndefined \<or> d = JNull"
  shows "log (combinedAppender sinks) e d ls = (Inl TypeError, log_state sinks e d ls n)"
proof -
  from assms(4) have "log (LogAppender rt) e d w = (Inl TypeError, w)" for w
    by (auto simp: LogAppender_def LogAppender_log_def)
  with assms(2)
  have t: "log (sinks ! n) e d (log_state sinks e d ls n) = (Inl TypeError, log_state sinks e d ls n)"
    by simp
  then have "fst (log (sinks ! n) e d (log_state sinks e d ls n)) = Inl TypeError" by simp
  from forEach_log_first_throw[OF assms(1) assms(3) this] t show ?thesis
    by (simp add: combined_log)
qed

text \<open>
  Claim C2, as amended. On plain data \<^verbatim>\<open>flattenKeys\<close> and \<^verbatim>\<open>flattenValues\<close> return a list
  and throw nothing: \<^verbatim>\<open>Object.keys\<close> and the property reads, which throw on \<^verbatim>\<open>undefined\<close>
  and \<^verbatim>\<open>null\<close>, are reached for objects only. \<^verbatim>\<open>flattenKeys\<close> returns the empty list for a
  falsy value, \<^verbatim>\<open>[""]\<close> for an array and for a truthy primitive, and for an object one
  entry for each value in it that is not an object; \<^verbatim>\<open>flattenValues\<close> returns the empty
  list for a value that is not an object or an array, and otherwise at most one entry
  for each key, an object with the one property of that key. \<^verbatim>\<open>LogAppender.log\<close> throws a
  \<^verbatim>\<open>TypeError\<close> exactly when the data is \<^verbatim>\<open>undefined\<close> or \<^verbatim>\<open>null\<close>, and otherwise returns after
  its one call of \<^verbatim>\<open>trace\<close>. The \<^verbatim>\<open>log\<close> of a combined appender returns exactly when every
  wrapped \<^verbatim>\<open>log\<close>, called in list order in the state that the call before it has left,
  returns; when one of them is the first to throw, the combined \<^verbatim>\<open>log\<close> throws what it
  throws; so it throws a \<^verbatim>\<open>TypeError\<close> on \<^verbatim>\<open>undefined\<close> or \<^verbatim>\<open>null\<close> data when the calls before
  a wrapped \<^verbatim>\<open>LogAppender\<close> return.
\<close>

theorem telemetry_functions_totality:
  "(\<not> truthy v \<longrightarrow> flattenKeys v = [])
   \<and> (truthy v \<and> (\<forall>props. v \<noteq> JObj props) \<longrightarrow> flattenKeys v = [[]])
   \<and> flattenKeys (JObj props) = map (prefix_after []) (leaf_paths (JObj props))
   \<and> (truthy v \<and> typeof v = ''object'' \<longrightarrow> (\<exists>ks. object_keys v = Inr ks))
   \<and> (\<not> is_container v \<longrightarrow> flattenValues rt v keys = [])
   \<and> length (flattenValues rt v keys) \<le> length keys
   \<and> (\<forall>entry \<in> set (flattenValues rt v keys).
        \<exists>key r. key \<in> set keys \<and> r \<noteq> Data JUndefined \<and> entry = Object ObjectPrototype [(key, r)])
   \<and> (truthy_any tmp \<and> typeof_any tmp = ''object'' \<longrightarrow> tmp \<noteq> Data JUndefined \<and> tmp \<noteq> Data JNull)
   \<and> ((fst (LogAppender_log rt e d ls) = Inl TypeError) = (d = JUndefined \<or> d = JNull))
   \<and> (d \<noteq> JUndefined \<and> d \<noteq> JNull \<longrightarrow>
        (\<exists>stripped. LogAppender_log rt e d ls =
           (Inr (), ls @ [(''telemetry/'' @ e, stripped)])))
   \<and> ((fst (log (combinedAppender appenders) e d w) = Inr ())
        = (\<forall>i < length appenders.
             fst (log (appenders ! i) e d (log_state appenders e d w i)) = Inr ()))
   \<and> (n < length appenders
        \<and> (\<forall>i < n. fst (log (appenders ! i) e d (log_state appenders e d w i)) = Inr ())
        \<and> fst (log (appenders ! n) e d (log_state appenders e d w n)) = Inl err \<longrightarrow>
      log (combinedAppender appenders) e d w
        = log (appenders ! n) e d (log_state appenders e d w n))
   \<and> (m < length sinks \<and> sinks ! m = LogAppender rt
        \<and> (\<forall>i < m. fst (log (sinks ! i) e d (log_state sinks e d ls i)) = Inr ())
        \<and> (d = JUndefined \<or> d = JNull) \<longrightarrow>
      log (combinedAppender sinks) e d ls = (Inl TypeError, log_state sinks e d ls m))"
proof (intro conjI impI ballI)
  assume "\<not> truthy v"
  then show "flattenKeys v = []" by (simp add: flattenKeys_def)
next
  assume "truthy v \<and> (\<forall>props. v \<noteq> JObj props)"
  then show "flattenKeys v = [[]]" using flattenKeys_not_object[of v] by simp
next
  show "flattenKeys (JObj props) = map (prefix_after []) (leaf_paths (JObj props))"
    by (simp add: flattenKeys_def flatKeys_paths)
next
  assume "truthy v \<and> typeof v = ''object''"
  then show "\<exists>ks. object_keys v = Inr ks" using flatKeys_keys[of v] by simp
next
  assume "\<not> is_container v"
  then show "flattenValues rt v keys = []" by (rule flattenValues_not_container)
next
  show "length (flattenValues rt v keys) \<le> length keys"
    unfolding flattenValues_map_filter by (rule map_filter_length)
next
  fix entry assume "entry \<in> set (flattenValues rt v keys)"
  then show "\<exists>key r. key \<in> set keys \<and> r \<noteq> Data JUndefined
      \<and> entry = Object ObjectPrototype [(key, r)]"
    by (rule flattenValues_entries)
next
  assume "truthy_any tmp \<and> typeof_any tmp = ''object''"
  then show "tmp \<noteq> Data JUndefined" "tmp \<noteq> Data JNull" using descend_reads[of tmp] by simp_all
next
  show "(fst (LogAppender_log rt e d ls) = Inl TypeError) = (d = JUndefined \<or> d = JNull)"
    by (rule LogAppender_log_throws)
next
  assume "d \<noteq> JUndefined \<and> d \<noteq> JNull"
  then show "\<exists>stripped. LogAppender_log rt e d ls =
           (Inr (), ls @ [(''telemetry/'' @ e, stripped)])"
    using LogAppender_log_returns[of d rt e ls] by simp
next
  show "(fst (log (combinedAppender appenders) e d w) = Inr ())
        = (\<forall>i < length appenders.
             fst (log (appenders ! i) e d (log_state appenders e d w i)) = Inr ())"
    unfolding combined_log by (rule forEach_log_returns_iff)
next
  assume "n < length appenders
        \<and> (\<forall>i < n. fst (log (appenders ! i) e d (log_state appenders e d w i)) = Inr ())
        \<and> fst (log (appenders ! n) e d (log_state appenders e d w n)) = Inl err"
  then have "n < length appenders"
    "\<forall>i < n. fst (log (appenders ! i) e d (log_state appenders e d w i)) = Inr ()"
    "fst (log (appenders ! n) e d (log_state appenders e d w n)) = Inl err"
    by simp_all
  from forEach_log_first_throw[OF this]
  show "log (combinedAppender appenders) e d w
        = log (appenders ! n) e d (log_state appenders e d w n)"
    by (simp add: combined_log)
next
  assume "m < length sinks \<and> sinks ! m = LogAppender rt
        \<and> (\<forall>i < m. fst (log (sinks ! i) e d (log_state sinks e d ls i)) = Inr ())
        \<and> (d = JUndefined \<or> d = JNull)"
  then show "log (combinedAppender sinks) e d ls = (Inl TypeError, log_state sinks e d ls m)"
    by (intro combined_LogAppender_throws) simp_all
qed

theorem telemetry_functions_totality_witness:
  "flattenKeys (JArr [JNum 1]) = [[]]
   \<and> flattenKeys (JNum 0) = []
   \<and> flattenValues ecmascript2015 (JStr ''ab'') [''length'', ''0''] = []
   \<and> LogAppender_log ecmascript2015 ''ev'' (JStr ''ab'') []
       = (Inr (), [(''telemetry/ev'',
            Object ObjectPrototype [(''0'', Data (JStr ''a'')), (''1'', Data (JStr ''b''))])])
   \<and> fst (log (combinedAppender [recorder, LogAppender ecmascript2015]) ''ev''
            (JObj [(''foo'', JNum 1)]) []) = Inr ()
   \<and> log (combinedAppender [recorder, LogAppender ecmascript2015, recorder]) ''ev'' JNull []
       = (Inl TypeError, [(''recorded/ev'', Object ObjectPrototype [(''data'', Data JNull)])])"
proof -
  let ?aps = "[recorder, LogAppender ecmascript2015]"
  let ?sinks = "[recorder, LogAppender ecmascript2015, recorder]"
  let ?d = "JObj [(''foo'', JNum 1)]"
  have lr: "log recorder e d w
      = (Inr (), w @ [(''recorded/'' @ e, Object ObjectPrototype [(''data'', Data d)])])" for e d w
    by (simp add: recorder_def)
  have la: "fst (log (LogAppender ecmascript2015) ''ev'' ?d w) = Inr ()" for w
    by (simp add: LogAppender_def LogAppender_log_def)
  have 1: "flattenKeys (JArr [JNum 1]) = [[]]"
    using telemetry_functions_totality[where v = "JArr [JNum 1]", THEN conjunct2, THEN conjunct1] by simp
  have 2: "flattenKeys (JNum 0) = []"
    using telemetry_functions_totality[where v = "JNum 0", THEN conjunct1] by simp
  have 3: "flattenValues ecmascript2015 (JStr ''ab'') [''length'', ''0''] = []"
    using telemetry_functions_totality[where v = "JStr ''ab''" and rt = ecmascript2015
      and keys = "[''length'', ''0'']", THEN conjunct2, THEN conjunct2, THEN conjunct2, THEN conjunct2, THEN conjunct1] by simp
  have 4: "LogAppender_log ecmascript2015 ''ev'' (JStr ''ab'') []
       = (Inr (), [(''telemetry/ev'',
            Object ObjectPrototype [(''0'', Data (JStr ''a'')), (''1'', Data (JStr ''b''))])])"
    using telemetry_functions_totality[where rt = ecmascript2015 and d = "JStr ''ab''"
      and e = "''ev''" and ls = "[]", THEN conjunct2, THEN conjunct2, THEN conjunct2, THEN conjunct2, THEN conjunct2, THEN conjunct2, THEN conjunct2, THEN conjunct2, THEN conjunct2, THEN conjunct1]
    by (simp add: LogAppender_log_def regex_test_common is_common_property_def getProp_def
        setProp_def ecmascript2015_def)
  have "\<forall>i < length ?aps. fst (log (?aps ! i) ''ev'' ?d (log_state ?aps ''ev'' ?d [] i)) = Inr ()"
    by (simp add: All_less_Suc log_state_def la lr)
  then have 5: "fst (log (combinedAppender ?aps) ''ev'' ?d []) = Inr ()"
    using telemetry_functions_totality[where appenders = ?aps and e = "''ev''" and d = ?d
      and w = "[]", THEN conjunct2, THEN conjunct2, THEN conjunct2, THEN conjunct2, THEN conjunct2, THEN conjunct2, THEN conjunct2, THEN conjunct2, THEN conjunct2, THEN conjunct2, THEN conjunct1] by blast
  have "1 < length ?sinks \<and> ?sinks ! 1 = LogAppender ecmascript2015
        \<and> (\<forall>i < 1. fst (log (?sinks ! i) ''ev'' JNull (log_state ?sinks ''ev'' JNull [] i)) = Inr ())
        \<and> (JNull = JUndefined \<or> JNull = JNull)"
    by (simp add: log_state_def lr)
  then have "log (combinedAppender ?sinks) ''ev'' JNull []
      = (Inl TypeError, log_state ?sinks ''ev'' JNull [] 1)"
    using telemetry_functions_totality[where sinks = ?sinks and e = "''ev''" and d = JNull
      and ls = "[]" and m = 1 and rt = ecmascript2015, THEN conjunct2, THEN conjunct2, THEN conjunct2, THEN conjunct2, THEN conjunct2, THEN conjunct2, THEN conjunct2, THEN conjunct2, THEN conjunct2, THEN conjunct2, THEN conjunct2, THEN conjunct2] by blast
  then have 6: "log (combinedAppender ?sinks) ''ev'' JNull []
       = (Inl TypeError, [(''recorded/ev'', Object ObjectPrototype [(''data'', Data JNull)])])"
    by (simp add: log_state_def lr)
  from 1 2 3 4 5 6 show ?thesis by (intro conjI)
qed

text \<open>\<^verbatim>\<open>LogAppender.log("ev", undefined)\<close> throws: \<^verbatim>\<open>Object.keys(undefined)\<close> is a \<^verbatim>\<open>TypeError\<close>.\<close>

theorem LogAppender_log_undefined_counterexample:
  "LogAppender_log ecmascript2015 ''ev'' JUndefined [] = (Inl TypeError, [])"
  by (simp add: LogAppender_log_def)

chapter \<open>Properties of the composite part\<close>

lemma emit_simps [simp]:
  "activeComposite (emit c s) = activeComposite s"
  "lastActiveCompositeId (emit c s) = lastActiveCompositeId s"
  "instantiatedCompositeItems (emit c s) = instantiatedCompositeItems s"
  "mapCompositeToCompositeContainer (emit c s) = mapCompositeToCompositeContainer s"
  "mapActionsBindingToComposite (emit c s) = mapActionsBindingToComposite s"
  "contentAreaSize (emit c s) = contentAreaSize s"
  "currentCompositeOpenToken (emit c s) = currentCompositeOpenToken s"
  "lastId (emit c s) = lastId s"
  "instantiated (emit c s) = instantiated s"
  "storage (emit c s) = storage s"
  "visible (emit c s) = visible s"
  "contentArea (emit c s) = contentArea s"
  "calls (emit c s) = calls s @ [c]"
  by (simp_all add: emit_def)

lemma emit_eq: "emit c s = s\<lparr>calls := calls s @ [c]\<rparr>"
  by (simp add: emit_def)

lemma activeIs_emit [simp]: "activeIs (emit c s) cid = activeIs s cid"
  by (simp add: activeIs_def)

lemma hideActiveComposite_None:
  "activeComposite s = None \<Longrightarrow> hideActiveComposite s = (None, s)"
  by (simp add: hideActiveComposite_def)

lemma hideActiveComposite_Some:
  "activeComposite s = Some c \<Longrightarrow>
   hideActiveComposite s =
     (Some c, s\<lparr>activeComposite := None,
                visible := visible s - {c},
                contentArea := (case mapCompositeToCompositeContainer s (getId c) of
                                  None \<Rightarrow> contentArea s
                                | Some k \<Rightarrow> filter (\<lambda>x. x \<noteq> k) (contentArea s)),
                calls := calls s @ hide_calls s c\<rparr>)"
  by (simp add: hideActiveComposite_def setVisible_def emit_eq hide_calls_def Let_def
           split: option.splits)

lemma updateTitle_eq:
  "updateTitle E cid t s = s\<lparr>calls := calls s @ title_calls E cid t\<rparr>"
  by (simp add: updateTitle_def title_calls_def emit_eq Let_def split: option.splits)

lemma collect_eq:
  "collectCompositeActions E c s =
    ((prepareActions E (compositeActions E c), prepareActions E (compositeSecondaryActions E c)),
     emit (ToolBarContext (activeComposite s)) s)"
  by (simp add: collectCompositeActions_def getActions_def getSecondaryActions_def)

lemma showComposite_eq:
  "showComposite E c s =
      s\<lparr>activeComposite := Some c,
        lastActiveCompositeId := getId c,
        mapCompositeToCompositeContainer :=
          (mapCompositeToCompositeContainer s)(getId c \<mapsto> container_of s c),
        mapActionsBindingToComposite :=
          (mapActionsBindingToComposite s)(getId c \<mapsto> binding_of E s c),
        storage := (if getId c \<noteq> defaultCompositeId E then Some (getId c) else None),
        visible := insert c (visible s),
        contentArea := filter (\<lambda>x. x \<noteq> container_of s c) (contentArea s) @ [container_of s c],
        calls := calls s @ show_calls E c s\<rparr>"
proof (cases "getId c = defaultCompositeId E";
       cases "mapCompositeToCompositeContainer s (getId c)";
       cases "mapActionsBindingToComposite s (getId c)";
       cases "registry E (getId c)";
       cases "contentAreaSize s")
qed (simp_all add: showComposite_def Let_def setVisible_def activeIs_def collect_eq emit_def
        updateTitle_eq show_calls_def container_of_def binding_of_def fun_upd_idem)

lemma createComposite_cached:
  "instantiatedCompositeItems s cid = Some item \<Longrightarrow>
   createComposite E cid isActive h s = (Inr (item_composite item), s)"
  by (simp add: createComposite_def)

lemma createComposite_unknown:
  "instantiatedCompositeItems s cid = None \<Longrightarrow> registry E cid = None \<Longrightarrow>
   createComposite E cid isActive h s =
     (Inl (Error (''Unable to find composite with id '' @ cid)), s)"
  by (simp add: createComposite_def)

lemma createComposite_new:
  "instantiatedCompositeItems s cid = None \<Longrightarrow> registry E cid = Some name \<Longrightarrow>
   createComposite E cid isActive h s =
     (Inr (Composite cid (instantiated s)),
      (let s1 = h (emit (Instantiate (Composite cid (instantiated s)))
                    (s\<lparr>instantiated := instantiated s + 1\<rparr>))
       in s1\<lparr>instantiatedCompositeItems := (instantiatedCompositeItems s1)
               (cid \<mapsto> \<lparr> item_composite = Composite cid (instantiated s),
                         item_disposable = [Composite cid (instantiated s)],
                         item_progress = (cid, isActive) \<rparr>),
             calls := calls s1 @ [NewProgressIndicator cid isActive,
                                  OnTitleAreaUpdate (Composite cid (instantiated s))]\<rparr>))"
  by (simp add: createComposite_def Let_def emit_eq)

lemma continue_stale:
  "currentCompositeOpenToken s \<noteq> Some token
     \<or> (\<exists>c. activeComposite s = Some c \<and> getId c \<noteq> getId composite) \<Longrightarrow>
   doOpenComposite_continue E token composite focus s = (Inr None, s)"
  by (auto simp: doOpenComposite_continue_def split: option.splits)

lemma continue_show:
  "currentCompositeOpenToken s = Some token \<Longrightarrow> activeComposite s = None \<Longrightarrow>
   doOpenComposite_continue E token composite focus s =
     (Inr (Some composite),
      (showComposite E composite s)
        \<lparr>calls := calls (showComposite E composite s)
                  @ (if focus then [CompositeFocus composite] else [])
                  @ [DidCompositeOpen composite focus]\<rparr>)"
  by (simp add: doOpenComposite_continue_def activeIs_def emit_eq Let_def)

lemma later_refl: "later s s"
  by (simp add: later_def)

lemma take_prefix_trans:
  assumes "take (length xs) ys = xs" and "take (length ys) zs = ys"
  shows "take (length xs) zs = xs"
proof -
  from assms(1) have "ys = xs @ drop (length xs) ys"
    by (metis append_take_drop_id)
  moreover from assms(2) have "zs = ys @ drop (length ys) zs"
    by (metis append_take_drop_id)
  ultimately have "zs = xs @ (drop (length xs) ys @ drop (length ys) zs)"
    by (metis append_assoc)
  then show ?thesis
    by (metis append_eq_conv_conj)
qed

lemma later_trans:
  assumes "later s s'" and "later s' s''"
  shows "later s s''"
proof -
  from assms have c: "take (length (calls s)) (calls s'') = calls s"
    by (auto simp: later_def intro: take_prefix_trans)
  from assms have n: "instantiated s \<le> instantiated s''" "lastId s \<le> lastId s'"
    "lastId s' \<le> lastId s''"
    by (auto simp: later_def)
  have same: "currentCompositeOpenToken s'' = currentCompositeOpenToken s
      \<and> (activeComposite s'' = None \<or> activeComposite s'' = activeComposite s)"
    if "lastId s'' = lastId s"
  proof -
    from that n have "lastId s' = lastId s" "lastId s'' = lastId s'" by simp_all
    with assms show ?thesis by (auto simp: later_def)
  qed
  have newer: "\<exists>t. currentCompositeOpenToken s'' = Some t \<and> lastId s < t"
    if "lastId s < lastId s''"
  proof (cases "lastId s' = lastId s''")
    case True
    with that assms show ?thesis by (auto simp: later_def)
  next
    case False
    with n have "lastId s' < lastId s''" by simp
    with assms(2) obtain t where "currentCompositeOpenToken s'' = Some t" "lastId s' < t"
      by (auto simp: later_def)
    with n show ?thesis by auto
  qed
  from c n same newer show ?thesis by (simp add: later_def)
qed

lemma later_calls: "later s (s\<lparr>calls := calls s @ cs\<rparr>)"
  by (simp add: later_def)

lemma later_emit: "later s (emit c s)"
  by (simp add: emit_eq later_calls)

lemma later_updateTitle: "later s (updateTitle E cid t s)"
  by (simp add: updateTitle_eq later_calls)

lemma later_hide: "later s (snd (hideActiveComposite s))"
  by (cases "activeComposite s")
     (simp_all add: hideActiveComposite_None hideActiveComposite_Some later_def)

lemma later_createComposite:
  assumes "\<And>s. later s (h s)"
  shows "later s (snd (createComposite E cid isActive h s))"
proof (cases "instantiatedCompositeItems s cid")
  case (Some item)
  then show ?thesis by (simp add: createComposite_cached later_refl)
next
  case None
  show ?thesis
  proof (cases "registry E cid")
    case None
    with \<open>instantiatedCompositeItems s cid = None\<close> show ?thesis
      by (simp add: createComposite_unknown later_refl)
  next
    case (Some name)
    let ?s0 = "emit (Instantiate (Composite cid (instantiated s))) (s\<lparr>instantiated := instantiated s + 1\<rparr>)"
    have a: "later s ?s0" by (simp add: later_def)
    have b: "later ?s0 (h ?s0)" by (rule assms)
    have c: "later (h ?s0) (snd (createComposite E cid isActive h s))"
      using None Some by (simp add: createComposite_new Let_def later_def)
    from a b c show ?thesis by (blast intro: later_trans)
  qed
qed

lemma later_removeComposite: "later s (snd (removeComposite cid s))"
  by (simp add: removeComposite_def later_def Let_def emit_eq split: option.splits)

lemma later_onTitleAreaUpdate: "later s (onTitleAreaUpdate E cid s)"
  by (simp add: onTitleAreaUpdate_def later_def Let_def emit_eq updateTitle_eq collect_eq
      split: option.splits)

lemma later_layout: "later s (layout E w h s)"
  by (simp add: layout_def later_def Let_def emit_eq split: option.splits)

text \<open>After a hook that leads to a later state, an unchanged token means that nothing is active.\<close>

lemma token_kept_none_active:
  assumes "later s3 s4" "currentCompositeOpenToken s3 = Some (lastId s3)"
    "activeComposite s3 = None" "currentCompositeOpenToken s4 = Some (lastId s3)"
  shows "activeComposite s4 = None \<and> lastId s4 = lastId s3"
proof (cases "lastId s4 = lastId s3")
  case True
  with assms show ?thesis by (auto simp: later_def)
next
  case False
  with assms have "lastId s3 < lastId s4" by (simp add: later_def)
  with assms obtain t where "currentCompositeOpenToken s4 = Some t" "lastId s3 < t"
    by (auto simp: later_def)
  with assms show ?thesis by simp
qed

lemma later_after_mint:
  assumes "later (snd (mintToken s)) s4" "lastId s' = lastId s4"
    "currentCompositeOpenToken s' = currentCompositeOpenToken s4"
    "instantiated s4 \<le> instantiated s'" "take (length (calls s4)) (calls s') = calls s4"
  shows "later s s'"
proof -
  let ?s1 = "snd (mintToken s)"
  have m: "lastId ?s1 = lastId s + 1" "currentCompositeOpenToken ?s1 = Some (lastId s + 1)"
    "calls ?s1 = calls s" "instantiated ?s1 = instantiated s"
    by (simp_all add: mintToken_def Let_def)
  from assms(1) have l: "take (length (calls s)) (calls s4) = calls s"
    "instantiated s \<le> instantiated s4" "lastId s + 1 \<le> lastId s4"
    "lastId s4 = lastId s + 1 \<longrightarrow> currentCompositeOpenToken s4 = Some (lastId s + 1)"
    "lastId s + 1 < lastId s4 \<longrightarrow> (\<exists>t. currentCompositeOpenToken s4 = Some t \<and> lastId s + 1 < t)"
    unfolding later_def m by simp_all
  have p: "take (length (calls s)) (calls s') = calls s"
    using l(1) assms(5) by (rule take_prefix_trans)
  have "\<exists>t. currentCompositeOpenToken s' = Some t \<and> lastId s < t"
  proof (cases "lastId s4 = lastId s + 1")
    case True
    with l(4) assms(3) show ?thesis by simp
  next
    case False
    with l(3) have "lastId s + 1 < lastId s4" by simp
    with l(5) assms(3) show ?thesis by auto
  qed
  with p l assms show ?thesis by (simp add: later_def)
qed

lemma cache_ok_later:
  assumes "cache_ok E s" "instantiatedCompositeItems s' = instantiatedCompositeItems s"
    "instantiated s \<le> instantiated s'"
    "\<And>c. Instantiate c \<in> set (calls s') \<Longrightarrow> Instantiate c \<in> set (calls s) \<or> serial c < instantiated s'"
  shows "cache_ok E s'"
proof (unfold cache_ok_def, intro conjI allI impI)
  fix cid item
  assume "instantiatedCompositeItems s' cid = Some item"
  with assms(2) have "instantiatedCompositeItems s cid = Some item" by simp
  with assms(1) have "getId (item_composite item) = cid"
    "serial (item_composite item) < instantiated s" "registry E cid \<noteq> None"
    by (simp_all add: cache_ok_def)
  with assms(3) show "getId (item_composite item) = cid"
    "serial (item_composite item) < instantiated s'" "registry E cid \<noteq> None"
    by simp_all
next
  fix c
  assume "Instantiate c \<in> set (calls s')"
  from assms(4)[OF this] assms(1) assms(3) show "serial c < instantiated s'"
    by (auto simp: cache_ok_def)
qed

lemma shown_cong:
  "visible s' = visible s \<Longrightarrow> contentArea s' = contentArea s \<Longrightarrow>
   activeComposite s' = activeComposite s \<Longrightarrow>
   mapCompositeToCompositeContainer s' = mapCompositeToCompositeContainer s \<Longrightarrow>
   shown_is_active s' = shown_is_active s"
  by (cases "activeComposite s") (simp_all add: shown_is_active_def)

lemma no_Instantiate_title: "Instantiate c \<notin> set (title_calls E cid t)"
  by (simp add: title_calls_def split: option.splits)

lemma no_Instantiate_hide: "Instantiate c \<notin> set (hide_calls s c')"
  by (simp add: hide_calls_def split: option.splits)

lemma no_Instantiate_show: "Instantiate c \<notin> set (show_calls E c' s)"
  by (simp add: show_calls_def no_Instantiate_title split: option.splits)

lemma cache_ok_hide:
  assumes "cache_ok E s"
  shows "cache_ok E (snd (hideActiveComposite s))"
proof (cases "activeComposite s")
  case None
  with assms show ?thesis by (simp add: hideActiveComposite_None)
next
  case (Some c)
  show ?thesis
    by (rule cache_ok_later[OF assms]) (simp_all add: hideActiveComposite_Some[OF Some] no_Instantiate_hide)
qed

lemma cache_ok_updateTitle:
  assumes "cache_ok E s"
  shows "cache_ok E (updateTitle E cid t s)"
  by (rule cache_ok_later[OF assms]) (simp_all add: updateTitle_eq no_Instantiate_title)

lemma cache_ok_mint:
  assumes "cache_ok E s"
  shows "cache_ok E (snd (mintToken s))"
  by (rule cache_ok_later[OF assms]) (simp_all add: mintToken_def Let_def)

lemma shown_hide: "shown_is_active s \<Longrightarrow> shown_is_active (snd (hideActiveComposite s))"
  by (cases "activeComposite s")
     (auto simp: hideActiveComposite_None hideActiveComposite_Some shown_is_active_def
           filter_empty_conv split: option.splits)

lemma shown_updateTitle: "shown_is_active (updateTitle E cid t s) = shown_is_active s"
  by (rule shown_cong) (simp_all add: updateTitle_eq)

lemma shown_mint: "shown_is_active (snd (mintToken s)) = shown_is_active s"
  by (rule shown_cong) (simp_all add: mintToken_def Let_def)

lemma cache_ok_createComposite:
  assumes "hook_ok E h" "cache_ok E s"
  shows "cache_ok E (snd (createComposite E cid isActive h s))"
proof (cases "instantiatedCompositeItems s cid")
  case (Some item)
  with assms show ?thesis by (simp add: createComposite_cached)
next
  case None
  show ?thesis
  proof (cases "registry E cid")
    case None
    with \<open>instantiatedCompositeItems s cid = None\<close> assms show ?thesis
      by (simp add: createComposite_unknown)
  next
    case (Some name)
    let ?c = "Composite cid (instantiated s)"
    let ?s0 = "emit (Instantiate ?c) (s\<lparr>instantiated := instantiated s + 1\<rparr>)"
    have "cache_ok E ?s0"
      using assms(2) unfolding cache_ok_def by (auto simp: less_Suc_eq)
    with assms(1) have ok: "cache_ok E (h ?s0)" and lat: "later ?s0 (h ?s0)"
      by (simp_all add: hook_ok_def)
    from lat have "instantiated s < instantiated (h ?s0)"
      by (simp add: later_def)
    with ok Some None show ?thesis
      by (auto simp: createComposite_new Let_def cache_ok_def)
  qed
qed

lemma shown_createComposite:
  assumes "hook_ok E h" "shown_is_active s"
  shows "shown_is_active (snd (createComposite E cid isActive h s))"
proof (cases "instantiatedCompositeItems s cid")
  case (Some item)
  with assms show ?thesis by (simp add: createComposite_cached)
next
  case None
  show ?thesis
  proof (cases "registry E cid")
    case None
    with \<open>instantiatedCompositeItems s cid = None\<close> assms show ?thesis
      by (simp add: createComposite_unknown)
  next
    case (Some name)
    let ?c = "Composite cid (instantiated s)"
    let ?s0 = "emit (Instantiate ?c) (s\<lparr>instantiated := instantiated s + 1\<rparr>)"
    have "shown_is_active ?s0 = shown_is_active s"
      by (rule shown_cong) simp_all
    with assms have "shown_is_active (h ?s0)"
      by (simp add: hook_ok_def)
    moreover have "shown_is_active (snd (createComposite E cid isActive h s)) = shown_is_active (h ?s0)"
      using Some None by (intro shown_cong) (simp_all add: createComposite_new Let_def)
    ultimately show ?thesis by simp
  qed
qed

lemma doOpenComposite_eq:
  "doOpenComposite E cid focus h s =
     (case createComposite E cid (Some True) h (before_create E cid s) of
        (Inl err, s4) \<Rightarrow> (Inl err, s4)
      | (Inr composite, s4) \<Rightarrow> doOpenComposite_continue E (Suc (lastId s)) composite focus s4)"
  by (simp add: doOpenComposite_def before_create_def mintToken_def Let_def)

lemma before_create_fields:
  "currentCompositeOpenToken (before_create E cid s) = Some (Suc (lastId s))"
  "lastId (before_create E cid s) = Suc (lastId s)"
  "activeComposite (before_create E cid s) = None"
  "instantiatedCompositeItems (before_create E cid s) = instantiatedCompositeItems s"
  "instantiated (before_create E cid s) = instantiated s"
  "mapCompositeToCompositeContainer (before_create E cid s) = mapCompositeToCompositeContainer s"
  by (cases "activeComposite s";
      simp add: before_create_def mintToken_def Let_def updateTitle_eq hideActiveComposite_Some)+

lemma before_create_calls:
  "calls (before_create E cid s) =
     calls s @ (case activeComposite s of None \<Rightarrow> [] | Some p \<Rightarrow> hide_calls s p)
             @ title_calls E cid None"
  by (cases "activeComposite s")
     (simp_all add: before_create_def mintToken_def Let_def updateTitle_eq hideActiveComposite_Some
        hide_calls_def)

lemma later_before_create: "later (snd (mintToken s)) (before_create E cid s)"
  unfolding before_create_def
  by (auto intro: later_trans[OF later_hide later_updateTitle] later_updateTitle)

lemma cache_ok_before_create: "cache_ok E s \<Longrightarrow> cache_ok E (before_create E cid s)"
  unfolding before_create_def
  by (auto intro!: cache_ok_updateTitle cache_ok_hide cache_ok_mint)

lemma shown_before_create: "shown_is_active s \<Longrightarrow> shown_is_active (before_create E cid s)"
  unfolding before_create_def shown_updateTitle
  by (auto intro!: shown_hide simp: shown_mint)

lemma hook_ok_later: "hook_ok E h \<Longrightarrow> later s (h s)"
  by (simp add: hook_ok_def)

lemma doOpenComposite_result:
  assumes "hook_ok E h"
  shows "(\<exists>err s4. createComposite E cid (Some True) h (before_create E cid s) = (Inl err, s4)
            \<and> doOpenComposite E cid focus h s = (Inl err, s4))
       \<or> (\<exists>c s4. createComposite E cid (Some True) h (before_create E cid s) = (Inr c, s4)
            \<and> currentCompositeOpenToken s4 \<noteq> Some (Suc (lastId s))
            \<and> doOpenComposite E cid focus h s = (Inr None, s4))
       \<or> (\<exists>c s4. createComposite E cid (Some True) h (before_create E cid s) = (Inr c, s4)
            \<and> currentCompositeOpenToken s4 = Some (Suc (lastId s))
            \<and> lastId s4 = Suc (lastId s)
            \<and> activeComposite s4 = None
            \<and> doOpenComposite E cid focus h s =
                (Inr (Some c),
                 (showComposite E c s4)
                   \<lparr>calls := calls (showComposite E c s4)
                      @ (if focus then [CompositeFocus c] else [])
                      @ [DidCompositeOpen c focus]\<rparr>))"
proof -
  let ?s3 = "before_create E cid s"
  obtain r s4 where cr: "createComposite E cid (Some True) h ?s3 = (r, s4)"
    by (cases "createComposite E cid (Some True) h ?s3")
  have lat: "later ?s3 s4"
    using later_createComposite[of h ?s3 E cid "Some True"] hook_ok_later[OF assms] cr by simp
  show ?thesis
  proof (cases r)
    case (Inl err)
    with cr show ?thesis by (simp add: doOpenComposite_eq)
  next
    case (Inr c)
    show ?thesis
    proof (cases "currentCompositeOpenToken s4 = Some (Suc (lastId s))")
      case False
      then have "doOpenComposite_continue E (Suc (lastId s)) c focus s4 = (Inr None, s4)"
        by (intro continue_stale) simp
      with cr Inr False show ?thesis by (simp add: doOpenComposite_eq)
    next
      case True
      have "activeComposite s4 = None \<and> lastId s4 = lastId ?s3"
        by (rule token_kept_none_active[OF lat]) (simp_all add: before_create_fields True)
      then have none: "activeComposite s4 = None" and lid: "lastId s4 = Suc (lastId s)"
        by (simp_all add: before_create_fields)
      from continue_show[OF True none] cr Inr True none lid show ?thesis
        by (simp add: doOpenComposite_eq)
    qed
  qed
qed

lemma later_show_after_mint:
  assumes "later (snd (mintToken s)) s4"
  shows "later s ((showComposite E c s4)\<lparr>calls := calls (showComposite E c s4) @ cs\<rparr>)"
  by (rule later_after_mint[OF assms]) (simp_all add: showComposite_eq)

lemma later_doOpenComposite:
  assumes "hook_ok E h"
  shows "later s (snd (doOpenComposite E cid focus h s))"
proof -
  let ?s3 = "before_create E cid s"
  have lat: "later (snd (mintToken s)) (snd (createComposite E cid (Some True) h ?s3))"
    using later_trans[OF later_before_create later_createComposite[of h ?s3 E cid "Some True"]]
      hook_ok_later[OF assms] by simp
  from doOpenComposite_result[OF assms, of cid s focus] show ?thesis
  proof (elim disjE exE conjE)
    fix err s4
    assume "createComposite E cid (Some True) h ?s3 = (Inl err, s4)"
      "doOpenComposite E cid focus h s = (Inl err, s4)"
    with lat show ?thesis by (simp add: later_after_mint)
  next
    fix c s4
    assume "createComposite E cid (Some True) h ?s3 = (Inr c, s4)"
      "doOpenComposite E cid focus h s = (Inr None, s4)"
    with lat show ?thesis by (simp add: later_after_mint)
  next
    fix c s4
    assume "createComposite E cid (Some True) h ?s3 = (Inr c, s4)"
      "doOpenComposite E cid focus h s =
                (Inr (Some c),
                 (showComposite E c s4)
                   \<lparr>calls := calls (showComposite E c s4)
                      @ (if focus then [CompositeFocus c] else [])
                      @ [DidCompositeOpen c focus]\<rparr>)"
    with lat show ?thesis by (simp add: later_show_after_mint)
  qed
qed

lemma cache_ok_doOpenComposite:
  assumes "hook_ok E h" "cache_ok E s"
  shows "cache_ok E (snd (doOpenComposite E cid focus h s))"
proof -
  let ?s3 = "before_create E cid s"
  have ok: "cache_ok E (snd (createComposite E cid (Some True) h ?s3))"
    by (intro cache_ok_createComposite assms cache_ok_before_create)
  from doOpenComposite_result[OF assms(1), of cid s focus] show ?thesis
  proof (elim disjE exE conjE)
    fix err s4
    assume "createComposite E cid (Some True) h ?s3 = (Inl err, s4)"
      "doOpenComposite E cid focus h s = (Inl err, s4)"
    with ok show ?thesis by simp
  next
    fix c s4
    assume "createComposite E cid (Some True) h ?s3 = (Inr c, s4)"
      "doOpenComposite E cid focus h s = (Inr None, s4)"
    with ok show ?thesis by simp
  next
    fix c s4
    assume a: "createComposite E cid (Some True) h ?s3 = (Inr c, s4)"
      "doOpenComposite E cid focus h s =
                (Inr (Some c),
                 (showComposite E c s4)
                   \<lparr>calls := calls (showComposite E c s4)
                      @ (if focus then [CompositeFocus c] else [])
                      @ [DidCompositeOpen c focus]\<rparr>)"
    with ok have "cache_ok E s4" by simp
    then have "cache_ok E ((showComposite E c s4)
                   \<lparr>calls := calls (showComposite E c s4)
                      @ (if focus then [CompositeFocus c] else [])
                      @ [DidCompositeOpen c focus]\<rparr>)"
      by (rule cache_ok_later) (simp_all add: showComposite_eq no_Instantiate_show)
    with a show ?thesis by simp
  qed
qed

lemma shown_after_show:
  assumes "shown_is_active s4" "activeComposite s4 = None"
  shows "shown_is_active ((showComposite E c s4)\<lparr>calls := cs\<rparr>)"
proof -
  from assms have "visible s4 = {}" "contentArea s4 = []"
    by (simp_all add: shown_is_active_def)
  then show ?thesis
    by (simp add: showComposite_eq shown_is_active_def)
qed

lemma shown_doOpenComposite:
  assumes "hook_ok E h" "shown_is_active s"
  shows "shown_is_active (snd (doOpenComposite E cid focus h s))"
proof -
  let ?s3 = "before_create E cid s"
  have ok: "shown_is_active (snd (createComposite E cid (Some True) h ?s3))"
    by (intro shown_createComposite assms shown_before_create)
  from doOpenComposite_result[OF assms(1), of cid s focus] show ?thesis
  proof (elim disjE exE conjE)
    fix err s4
    assume "createComposite E cid (Some True) h ?s3 = (Inl err, s4)"
      "doOpenComposite E cid focus h s = (Inl err, s4)"
    with ok show ?thesis by simp
  next
    fix c s4
    assume "createComposite E cid (Some True) h ?s3 = (Inr c, s4)"
      "doOpenComposite E cid focus h s = (Inr None, s4)"
    with ok show ?thesis by simp
  next
    fix c s4
    assume a: "createComposite E cid (Some True) h ?s3 = (Inr c, s4)"
      "activeComposite s4 = None"
      "doOpenComposite E cid focus h s =
                (Inr (Some c),
                 (showComposite E c s4)
                   \<lparr>calls := calls (showComposite E c s4)
                      @ (if focus then [CompositeFocus c] else [])
                      @ [DidCompositeOpen c focus]\<rparr>)"
    with ok have "shown_is_active s4" by simp
    from shown_after_show[OF this a(2)] a(3) show ?thesis by simp
  qed
qed

lemma openComposite_active:
  "activeComposite s = Some c \<Longrightarrow> getId c = cid \<Longrightarrow>
   openComposite E cid focus h s =
     (Inr (Some c), s\<lparr>calls := calls s @ (if focus = Some True then [CompositeFocus c] else [])\<rparr>)"
  by (simp add: openComposite_def emit_eq)

lemma openComposite_other:
  "\<not> activeIs s cid \<Longrightarrow>
   openComposite E cid focus h s = doOpenComposite E cid (focus = Some True) h s"
  by (cases "activeComposite s") (auto simp: openComposite_def activeIs_def)

lemma openComposite_ok:
  assumes "hook_ok E h"
  shows "later s (snd (openComposite E cid focus h s))"
    and "cache_ok E s \<Longrightarrow> cache_ok E (snd (openComposite E cid focus h s))"
    and "shown_is_active s \<Longrightarrow> shown_is_active (snd (openComposite E cid focus h s))"
proof -
  show "later s (snd (openComposite E cid focus h s))"
  proof (cases "activeIs s cid")
    case True
    then obtain c where "activeComposite s = Some c" "getId c = cid"
      by (auto simp: activeIs_def split: option.splits)
    then show ?thesis by (simp add: openComposite_active later_calls)
  next
    case False
    then show ?thesis by (simp add: openComposite_other later_doOpenComposite[OF assms])
  qed
  show "cache_ok E (snd (openComposite E cid focus h s))" if ok: "cache_ok E s"
  proof (cases "activeIs s cid")
    case True
    then obtain c where c: "activeComposite s = Some c" "getId c = cid"
      by (auto simp: activeIs_def split: option.splits)
    show ?thesis
      by (rule cache_ok_later[OF ok]) (auto simp: openComposite_active[OF c])
  next
    case False
    then show ?thesis by (simp add: openComposite_other cache_ok_doOpenComposite[OF assms ok])
  qed
  show "shown_is_active (snd (openComposite E cid focus h s))" if ok: "shown_is_active s"
  proof (cases "activeIs s cid")
    case True
    then obtain c where c: "activeComposite s = Some c" "getId c = cid"
      by (auto simp: activeIs_def split: option.splits)
    have "shown_is_active (snd (openComposite E cid focus h s)) = shown_is_active s"
      by (rule shown_cong) (simp_all add: openComposite_active[OF c])
    with ok show ?thesis by simp
  next
    case False
    then show ?thesis by (simp add: openComposite_other shown_doOpenComposite[OF assms ok])
  qed
qed

lemma removeComposite_active:
  "activeIs s cid \<Longrightarrow> removeComposite cid s = (False, s)"
  by (simp add: removeComposite_def)

lemma removeComposite_other:
  "\<not> activeIs s cid \<Longrightarrow>
   removeComposite cid s =
     (True, s\<lparr>mapCompositeToCompositeContainer := (mapCompositeToCompositeContainer s)(cid := None),
              mapActionsBindingToComposite := (mapActionsBindingToComposite s)(cid := None),
              instantiatedCompositeItems := (instantiatedCompositeItems s)(cid := None),
              calls := calls s @ (case instantiatedCompositeItems s cid of
                                    None \<Rightarrow> []
                                  | Some item \<Rightarrow> [CompositeDispose (item_composite item),
                                                  DisposableDispose (item_composite item)])\<rparr>)"
  by (cases "instantiatedCompositeItems s cid")
     (simp_all add: removeComposite_def Let_def emit_eq fun_upd_idem)

lemma removeComposite_ok:
  "cache_ok E s \<Longrightarrow> cache_ok E (snd (removeComposite cid s))"
  "shown_is_active s \<Longrightarrow> shown_is_active (snd (removeComposite cid s))"
proof -
  show "cache_ok E (snd (removeComposite cid s))" if ok: "cache_ok E s"
  proof (cases "activeIs s cid")
    case True
    with ok show ?thesis by (simp add: removeComposite_active)
  next
    case False
    with ok show ?thesis
      by (auto simp: removeComposite_other cache_ok_def split: option.splits if_splits)
  qed
  show "shown_is_active (snd (removeComposite cid s))" if ok: "shown_is_active s"
  proof (cases "activeIs s cid")
    case True
    with ok show ?thesis by (simp add: removeComposite_active)
  next
    case False
    with ok show ?thesis
      by (cases "activeComposite s")
         (auto simp: removeComposite_other shown_is_active_def activeIs_def)
  qed
qed

lemma onTitleAreaUpdate_eq:
  "onTitleAreaUpdate E cid s =
     (case activeComposite s of
        None \<Rightarrow> s\<lparr>mapActionsBindingToComposite := (mapActionsBindingToComposite s)(cid := None)\<rparr>
      | Some active \<Rightarrow>
          if getId active = cid
          then s\<lparr>mapActionsBindingToComposite :=
                    (mapActionsBindingToComposite s)
                      (cid \<mapsto> (prepareActions E (compositeActions E active),
                               prepareActions E (compositeSecondaryActions E active))),
                  calls := calls s
                    @ title_calls E cid (case getTitle E active of
                                           None \<Rightarrow> None
                                         | Some t \<Rightarrow> if t = [] then None else Some t)
                    @ [ToolBarContext (Some active),
                       ToolBarSetActions (prepareActions E (compositeActions E active))
                         (prepareActions E (compositeSecondaryActions E active))]\<rparr>
          else s\<lparr>mapActionsBindingToComposite := (mapActionsBindingToComposite s)(cid := None)\<rparr>)"
  by (cases "activeComposite s")
     (simp_all add: onTitleAreaUpdate_def Let_def updateTitle_eq collect_eq emit_eq)

lemma onTitleAreaUpdate_ok:
  "cache_ok E s \<Longrightarrow> cache_ok E (onTitleAreaUpdate E cid s)"
  "shown_is_active s \<Longrightarrow> shown_is_active (onTitleAreaUpdate E cid s)"
proof -
  show "cache_ok E (onTitleAreaUpdate E cid s)" if ok: "cache_ok E s"
    by (rule cache_ok_later[OF ok])
       (auto simp: onTitleAreaUpdate_eq no_Instantiate_title split: option.splits if_splits)
  have "shown_is_active (onTitleAreaUpdate E cid s) = shown_is_active s"
    by (rule shown_cong) (simp_all add: onTitleAreaUpdate_eq split: option.splits)
  then show "shown_is_active s \<Longrightarrow> shown_is_active (onTitleAreaUpdate E cid s)" by simp
qed

lemma layout_eq:
  "layout E w h s =
     s\<lparr>contentAreaSize := Some (layoutContents E w h),
       calls := calls s @ (case activeComposite s of
                             None \<Rightarrow> []
                           | Some c \<Rightarrow> [CompositeLayout c (layoutContents E w h)])\<rparr>"
  by (cases "activeComposite s") (simp_all add: layout_def Let_def emit_eq)

lemma layout_ok:
  "cache_ok E s \<Longrightarrow> cache_ok E (layout E w h s)"
  "shown_is_active s \<Longrightarrow> shown_is_active (layout E w h s)"
proof -
  show "cache_ok E (layout E w h s)" if ok: "cache_ok E s"
    by (rule cache_ok_later[OF ok]) (auto simp: layout_eq split: option.splits)
  have "shown_is_active (layout E w h s) = shown_is_active s"
    by (rule shown_cong) (simp_all add: layout_eq)
  then show "shown_is_active s \<Longrightarrow> shown_is_active (layout E w h s)" by simp
qed

lemma run_ops_Nil: "run_ops E [] = (\<lambda>s. s)"
  by (rule ext) simp

lemma hook_ok_id: "hook_ok E (\<lambda>s. s)"
  by (simp add: hook_ok_def later_refl)

lemma hook_ok_comp: "hook_ok E f \<Longrightarrow> hook_ok E g \<Longrightarrow> hook_ok E (\<lambda>s. g (f s))"
  unfolding hook_ok_def by (blast intro: later_trans)

lemma hook_ok_run_ops_elements:
  "(\<And>x. x \<in> set xs \<Longrightarrow> hook_ok E (run_op E x)) \<Longrightarrow> hook_ok E (run_ops E xs)"
proof (induction xs)
  case Nil
  show ?case by (simp add: hook_ok_id)
next
  case (Cons x xs)
  then have "hook_ok E (run_op E x)" "hook_ok E (run_ops E xs)" by simp_all
  from hook_ok_comp[OF this] show ?case by simp
qed

lemma hook_ok_run_op: "hook_ok E (run_op E x)"
proof (induction x)
  case (OpenComposite cid focus nested)
  then have "hook_ok E (run_ops E nested)" by (rule hook_ok_run_ops_elements)
  then show ?case
    unfolding hook_ok_def[of E "run_op E (OpenComposite cid focus nested)"]
    by (simp add: openComposite_ok)
next
  case (CreateComposite cid isActive nested)
  then have "hook_ok E (run_ops E nested)" by (rule hook_ok_run_ops_elements)
  then show ?case
    unfolding hook_ok_def[of E "run_op E (CreateComposite cid isActive nested)"]
    by (simp add: later_createComposite hook_ok_later cache_ok_createComposite shown_createComposite)
next
  case HideActiveComposite
  show ?case by (simp add: hook_ok_def later_hide cache_ok_hide shown_hide)
next
  case (RemoveComposite cid)
  show ?case by (simp add: hook_ok_def later_removeComposite removeComposite_ok)
next
  case (TitleAreaUpdate cid)
  show ?case by (simp add: hook_ok_def later_onTitleAreaUpdate onTitleAreaUpdate_ok)
next
  case (Layout w h)
  show ?case by (simp add: hook_ok_def later_layout layout_ok)
qed

lemma hook_ok_run_ops: "hook_ok E (run_ops E xs)"
  by (rule hook_ok_run_ops_elements) (rule hook_ok_run_op)

lemma new_part_ok: "cache_ok E (new_part E stored n m)" "shown_is_active (new_part E stored n m)"
  by (simp_all add: new_part_def cache_ok_def shown_is_active_def)

lemma run_ok:
  "cache_ok E (run_ops E ops (new_part E stored n m))"
  "shown_is_active (run_ops E ops (new_part E stored n m))"
  using hook_ok_run_ops[of E ops] new_part_ok[of E stored n m]
  by (simp_all add: hook_ok_def)

lemma later_calls_append: "later s s' \<Longrightarrow> calls s' = calls s @ new_calls s s'"
  unfolding later_def new_calls_def by (metis append_take_drop_id)

lemma new_calls_append [simp]: "new_calls s (s'\<lparr>calls := calls s @ cs\<rparr>) = cs"
  by (simp add: new_calls_def)

text \<open>
  Claim C3. In every state in which the composite \<open>cid\<close> is active,
  \<^verbatim>\<open>openComposite(cid, focus)\<close> returns the active composite, calls its \<^verbatim>\<open>focus()\<close> exactly
  when \<^verbatim>\<open>focus\<close> is true, and changes nothing else: the state is the same but for that
  call, and no \<^verbatim>\<open>onDidCompositeOpen\<close> event is fired. It does not reach the construction
  of a composite, whatever that would do.
\<close>

theorem openComposite_active_is_noop:
  assumes "activeComposite s = Some c" and "getId c = cid"
  shows "openComposite E cid focus h s =
           (Inr (Some c),
            s\<lparr>calls := calls s @ (if focus = Some True then [CompositeFocus c] else [])\<rparr>)
       \<and> new_calls s (snd (openComposite E cid focus h s)) =
            (if focus = Some True then [CompositeFocus c] else [])
       \<and> filter is_open_call (new_calls s (snd (openComposite E cid focus h s))) = []"
  using assms by (simp add: openComposite_active)

lemma example_part_eq:
  "example_part =
     (new_part example_env None 0 0)
       \<lparr>activeComposite := Some (Composite ''explorer'' 0),
        lastActiveCompositeId := ''explorer'',
        instantiatedCompositeItems :=
          [''explorer'' \<mapsto> \<lparr> item_composite = Composite ''explorer'' 0,
                              item_disposable = [Composite ''explorer'' 0],
                              item_progress = (''explorer'', Some True) \<rparr>],
        mapCompositeToCompositeContainer := [''explorer'' \<mapsto> Container (Composite ''explorer'' 0)],
        mapActionsBindingToComposite := [''explorer'' \<mapsto> ([], [])],
        currentCompositeOpenToken := Some 1,
        lastId := 1,
        instantiated := 1,
        visible := {Composite ''explorer'' 0},
        contentArea := [Container (Composite ''explorer'' 0)],
        calls :=
          [TitleLabelUpdateTitle ''explorer'' ''Explorer'' None, ToolBarSetAriaLabel ''Explorer'',
           Instantiate (Composite ''explorer'' 0), NewProgressIndicator ''explorer'' (Some True),
           OnTitleAreaUpdate (Composite ''explorer'' 0), StorageRemove,
           CompositeCreate (Composite ''explorer'' 0) (Container (Composite ''explorer'' 0)),
           CompositeUpdateStyles (Composite ''explorer'' 0),
           ContentAreaAppendChild (Container (Composite ''explorer'' 0)),
           ContainerShow (Container (Composite ''explorer'' 0)),
           ToolBarActionRunner (Composite ''explorer'' 0),
           TitleLabelUpdateTitle ''explorer'' ''Explorer'' None, ToolBarSetAriaLabel ''Explorer'',
           ToolBarContext (Some (Composite ''explorer'' 0)),
           ToolBarSetActions [] [], ActionRunnerOnDidRun (Composite ''explorer'' 0),
           CompositeSetVisible (Composite ''explorer'' 0) True,
           DidCompositeOpen (Composite ''explorer'' 0) False]\<rparr>"
  by (simp add: example_part_def example_env_def new_part_def openComposite_def
        doOpenComposite_eq before_create_def mintToken_def Let_def updateTitle_eq
        createComposite_def doOpenComposite_continue_def activeIs_def showComposite_eq emit_eq
        title_calls_def show_calls_def container_of_def binding_of_def)


theorem openComposite_active_is_noop_witness:
  "activeComposite example_part = Some (Composite ''explorer'' 0)
   \<and> openComposite example_env ''explorer'' (Some True) (\<lambda>s. s) example_part =
       (Inr (Some (Composite ''explorer'' 0)),
        example_part\<lparr>calls := calls example_part @ [CompositeFocus (Composite ''explorer'' 0)]\<rparr>)
   \<and> snd (openComposite example_env ''explorer'' None (\<lambda>s. s) example_part) = example_part"
proof -
  have a: "activeComposite example_part = Some (Composite ''explorer'' 0)"
    by (simp add: example_part_eq)
  from a openComposite_active_is_noop[OF a refl, where E = example_env and focus = "Some True" and h = "\<lambda>s. s"]
    openComposite_active_is_noop[OF a refl, where E = example_env and focus = None and h = "\<lambda>s. s"]
  show ?thesis by simp
qed


lemma createComposite_fresh:
  assumes "cache_ok E s" "instantiatedCompositeItems s cid = None" "registry E cid = Some name"
    "hook_ok E h"
  shows "\<exists>s'. createComposite E cid isActive h s = (Inr (Composite cid (instantiated s)), s')
      \<and> Instantiate (Composite cid (instantiated s)) \<notin> set (calls s)
      \<and> Instantiate (Composite cid (instantiated s)) \<in> set (calls s')
      \<and> map_option item_composite (instantiatedCompositeItems s' cid)
           = Some (Composite cid (instantiated s))"
proof -
  let ?c = "Composite cid (instantiated s)"
  let ?s0 = "emit (Instantiate ?c) (s\<lparr>instantiated := instantiated s + 1\<rparr>)"
  from assms(1) have fresh: "Instantiate ?c \<notin> set (calls s)"
    by (auto simp: cache_ok_def)
  have "calls (h ?s0) = calls ?s0 @ new_calls ?s0 (h ?s0)"
    by (rule later_calls_append) (rule hook_ok_later[OF assms(4)])
  moreover have "Instantiate ?c \<in> set (calls ?s0)"
    by simp
  ultimately have "Instantiate ?c \<in> set (calls (h ?s0))"
    by (metis Un_iff set_append)
  with fresh assms(2,3) show ?thesis
    by (simp add: createComposite_new Let_def)
qed

text \<open>
  Claim C4. In every state that a run of a part reaches, \<^verbatim>\<open>removeComposite(cid)\<close> on the
  identifier of the active composite returns \<^verbatim>\<open>false\<close> and leaves the state as it is; on
  an identifier that is cached and not active it returns \<^verbatim>\<open>true\<close>, disposes the cached
  composite and the disposable of its item, and removes the identifier from the cache
  and from the two maps, after which \<^verbatim>\<open>createComposite(cid)\<close> instantiates a composite
  that was never instantiated before, different from the disposed one, and caches it.
\<close>

theorem removeComposite_evicts:
  assumes "s = run_ops E ops (new_part E stored n m)"
  shows "(activeIs s cid \<longrightarrow> removeComposite cid s = (False, s))
       \<and> (\<not> activeIs s cid \<longrightarrow>
            (\<forall>item. instantiatedCompositeItems s cid = Some item \<longrightarrow>
               (\<exists>s'. removeComposite cid s = (True, s')
                   \<and> instantiatedCompositeItems s' cid = None
                   \<and> mapCompositeToCompositeContainer s' cid = None
                   \<and> mapActionsBindingToComposite s' cid = None
                   \<and> new_calls s s' = [CompositeDispose (item_composite item),
                                        DisposableDispose (item_composite item)]
                   \<and> (\<exists>c' s''. createComposite E cid isActive (run_ops E nested) s' = (Inr c', s'')
                         \<and> c' \<noteq> item_composite item
                         \<and> Instantiate c' \<notin> set (calls s')
                         \<and> Instantiate c' \<in> set (calls s'')
                         \<and> map_option item_composite (instantiatedCompositeItems s'' cid) = Some c'))))"
proof (intro conjI impI allI)
  assume "activeIs s cid"
  then show "removeComposite cid s = (False, s)" by (rule removeComposite_active)
next
  fix item
  assume na: "\<not> activeIs s cid" and item: "instantiatedCompositeItems s cid = Some item"
  have ok: "cache_ok E s" unfolding assms by (rule run_ok)
  let ?s' = "snd (removeComposite cid s)"
  have rm: "removeComposite cid s = (True, ?s')"
    using na by (simp add: removeComposite_other)
  have ok': "cache_ok E ?s'" using ok by (rule removeComposite_ok)
  from ok item obtain name where reg: "registry E cid = Some name"
    and ser: "serial (item_composite item) < instantiated s"
    by (auto simp: cache_ok_def)
  have f: "instantiatedCompositeItems ?s' cid = None" "instantiated ?s' = instantiated s"
    "mapCompositeToCompositeContainer ?s' cid = None" "mapActionsBindingToComposite ?s' cid = None"
    "new_calls s ?s' = [CompositeDispose (item_composite item), DisposableDispose (item_composite item)]"
    using na item by (simp_all add: removeComposite_other)
  from createComposite_fresh[OF ok' f(1) reg hook_ok_run_ops, of isActive nested]
  obtain s'' where cr: "createComposite E cid isActive (run_ops E nested) ?s' =
        (Inr (Composite cid (instantiated s)), s'')"
      "Instantiate (Composite cid (instantiated s)) \<notin> set (calls ?s')"
      "Instantiate (Composite cid (instantiated s)) \<in> set (calls s'')"
      "map_option item_composite (instantiatedCompositeItems s'' cid) = Some (Composite cid (instantiated s))"
    unfolding f(2) by blast
  have "serial (Composite cid (instantiated s)) \<noteq> serial (item_composite item)"
    using ser by simp
  then have "Composite cid (instantiated s) \<noteq> item_composite item"
    by metis
  with rm f cr show "\<exists>s'. removeComposite cid s = (True, s')
                   \<and> instantiatedCompositeItems s' cid = None
                   \<and> mapCompositeToCompositeContainer s' cid = None
                   \<and> mapActionsBindingToComposite s' cid = None
                   \<and> new_calls s s' = [CompositeDispose (item_composite item),
                                        DisposableDispose (item_composite item)]
                   \<and> (\<exists>c' s''. createComposite E cid isActive (run_ops E nested) s' = (Inr c', s'')
                         \<and> c' \<noteq> item_composite item
                         \<and> Instantiate c' \<notin> set (calls s')
                         \<and> Instantiate c' \<in> set (calls s'')
                         \<and> map_option item_composite (instantiatedCompositeItems s'' cid) = Some c')"
    by blast
qed

theorem removeComposite_evicts_witness:
  "activeIs (run_ops example_env [OpenComposite ''explorer'' None [], CreateComposite ''search'' None []]
              (new_part example_env None 0 0)) ''explorer''
   \<and> fst (removeComposite ''explorer''
        (run_ops example_env [OpenComposite ''explorer'' None [], CreateComposite ''search'' None []]
              (new_part example_env None 0 0))) = False
   \<and> map_option item_composite
        (instantiatedCompositeItems
           (run_ops example_env [OpenComposite ''explorer'' None [], CreateComposite ''search'' None []]
              (new_part example_env None 0 0)) ''search'') = Some (Composite ''search'' 1)
   \<and> fst (removeComposite ''search''
        (run_ops example_env [OpenComposite ''explorer'' None [], CreateComposite ''search'' None []]
              (new_part example_env None 0 0))) = True
   \<and> fst (createComposite example_env ''search'' None (\<lambda>s. s)
        (snd (removeComposite ''search''
          (run_ops example_env [OpenComposite ''explorer'' None [], CreateComposite ''search'' None []]
              (new_part example_env None 0 0))))) = Inr (Composite ''search'' 2)"
proof -
  define S where "S = run_ops example_env
      [OpenComposite ''explorer'' None [], CreateComposite ''search'' None []]
      (new_part example_env None 0 0)"
  have s: "S = snd (createComposite example_env ''search'' None (\<lambda>s. s) example_part)"
    by (simp add: S_def example_part_def run_ops_Nil)
  have f: "activeIs S ''explorer''" "\<not> activeIs S ''search''"
    "map_option item_composite (instantiatedCompositeItems S ''search'') = Some (Composite ''search'' 1)"
    "instantiated S = 2"
    unfolding s
    by (simp_all add: example_part_eq createComposite_def activeIs_def example_env_def Let_def new_part_def)
  from f(3) obtain item where item: "instantiatedCompositeItems S ''search'' = Some item"
    by auto
  from removeComposite_evicts[OF S_def, where cid = "''explorer''" and isActive = None and nested = "[]"] f
  have 1: "fst (removeComposite ''explorer'' S) = False" by simp
  from removeComposite_evicts[OF S_def, where cid = "''search''" and isActive = None and nested = "[]"] f item
  obtain s' c' s'' where r: "removeComposite ''search'' S = (True, s')"
     "instantiatedCompositeItems s' ''search'' = None"
     "createComposite example_env ''search'' None (run_ops example_env []) s' = (Inr c', s'')"
    by blast
  from r(1) f(2) have "instantiated s' = instantiated S"
    by (auto simp: removeComposite_other)
  with f(4) r(2) have "fst (createComposite example_env ''search'' None (\<lambda>s. s) s') = Inr (Composite ''search'' 2)"
    by (simp add: createComposite_def example_env_def Let_def)
  with r 1 f have "activeIs S ''explorer''
   \<and> fst (removeComposite ''explorer'' S) = False
   \<and> map_option item_composite (instantiatedCompositeItems S ''search'') = Some (Composite ''search'' 1)
   \<and> fst (removeComposite ''search'' S) = True
   \<and> fst (createComposite example_env ''search'' None (\<lambda>s. s)
        (snd (removeComposite ''search'' S))) = Inr (Composite ''search'' 2)"
    by simp
  then show ?thesis by (simp only: S_def)
qed




lemma new_calls_eq: "calls s' = calls s @ cs \<Longrightarrow> new_calls s s' = cs"
  by (simp add: new_calls_def)

lemma filter_open_title [simp]: "filter is_open_call (title_calls E cid t) = []"
  by (simp add: title_calls_def split: option.splits)

lemma filter_open_hide [simp]: "filter is_open_call (hide_calls s p) = []"
  by (simp add: hide_calls_def split: option.splits)

lemma filter_open_show [simp]: "filter is_open_call (show_calls E c s) = []"
  by (simp add: show_calls_def split: option.splits)

lemma setVisible_title: "CompositeSetVisible c v \<notin> set (title_calls E cid t)"
  by (simp add: title_calls_def split: option.splits)

lemma setVisible_hide: "CompositeSetVisible c True \<notin> set (hide_calls s p)"
  by (simp add: hide_calls_def split: option.splits)

lemma setVisible_show: "CompositeSetVisible c' v \<in> set (show_calls E c s) \<Longrightarrow> c' = c"
  by (simp add: show_calls_def setVisible_title split: option.splits if_splits)

text \<open>Creating a composite whose construction does not call back.\<close>

lemma create_plain:
  assumes ok: "cache_ok E s3"
    and known: "instantiatedCompositeItems s3 b \<noteq> None \<or> registry E b \<noteq> None"
  shows "\<exists>cb s4 cs. createComposite E b isActive (\<lambda>s. s) s3 = (Inr cb, s4)
        \<and> getId cb = b \<and> calls s4 = calls s3 @ cs
        \<and> filter is_open_call cs = [] \<and> (\<forall>c v. CompositeSetVisible c v \<notin> set cs)
        \<and> currentCompositeOpenToken s4 = currentCompositeOpenToken s3
        \<and> activeComposite s4 = activeComposite s3"
proof (cases "instantiatedCompositeItems s3 b")
  case (Some item)
  with ok have "getId (item_composite item) = b" by (simp add: cache_ok_def)
  with Some show ?thesis
    by (simp add: createComposite_cached)
next
  case None
  with known obtain name where "registry E b = Some name" by auto
  with None show ?thesis
    by (simp add: createComposite_new Let_def emit_eq)
qed

text \<open>Opening a composite when nothing is active and its construction does not call back.\<close>

lemma open_plain:
  assumes none: "activeComposite s = None" and ok: "cache_ok E s"
    and known: "instantiatedCompositeItems s b \<noteq> None \<or> registry E b \<noteq> None"
  shows "\<exists>cb s'. openComposite E b fb (\<lambda>s. s) s = (Inr (Some cb), s')
        \<and> getId cb = b \<and> activeComposite s' = Some cb
        \<and> currentCompositeOpenToken s' = Some (Suc (lastId s))
        \<and> later s s'
        \<and> filter is_open_call (new_calls s s') = [DidCompositeOpen cb (fb = Some True)]
        \<and> (\<forall>c v. CompositeSetVisible c v \<in> set (new_calls s s') \<longrightarrow> c = cb)"
proof -
  let ?f = "fb = Some True"
  let ?s3 = "before_create E b s"
  have op: "openComposite E b fb (\<lambda>s. s) s = doOpenComposite E b ?f (\<lambda>s. s) s"
    using none by (simp add: openComposite_def)
  have c3: "calls ?s3 = calls s @ title_calls E b None"
    using none by (simp add: before_create_calls)
  have ok3: "cache_ok E ?s3" using ok by (rule cache_ok_before_create)
  have known3: "instantiatedCompositeItems ?s3 b \<noteq> None \<or> registry E b \<noteq> None"
    using known by (simp add: before_create_fields)
  from create_plain[OF ok3 known3, of "Some True"]
  obtain cb s4 cs where cr: "createComposite E b (Some True) (\<lambda>s. s) ?s3 = (Inr cb, s4)"
    and cb: "getId cb = b" "filter is_open_call cs = []" "\<forall>c v. CompositeSetVisible c v \<notin> set cs"
    and c4: "calls s4 = calls ?s3 @ cs"
    and t4: "currentCompositeOpenToken s4 = currentCompositeOpenToken ?s3"
    and a4: "activeComposite s4 = activeComposite ?s3"
    by blast
  from t4 have tok: "currentCompositeOpenToken s4 = Some (Suc (lastId s))"
    by (simp add: before_create_fields)
  from a4 have act: "activeComposite s4 = None"
    by (simp add: before_create_fields)
  let ?s' = "(showComposite E cb s4)
               \<lparr>calls := calls (showComposite E cb s4) @ (if ?f then [CompositeFocus cb] else [])
                           @ [DidCompositeOpen cb ?f]\<rparr>"
  from continue_show[OF tok act] cr
  have res: "openComposite E b fb (\<lambda>s. s) s = (Inr (Some cb), ?s')"
    by (simp add: op doOpenComposite_eq)
  have "calls ?s' = calls s @ (title_calls E b None @ cs @ show_calls E cb s4
           @ (if ?f then [CompositeFocus cb] else []) @ [DidCompositeOpen cb ?f])"
    by (simp add: showComposite_eq c4 c3)
  then have n: "new_calls s ?s' = title_calls E b None @ cs @ show_calls E cb s4
           @ (if ?f then [CompositeFocus cb] else []) @ [DidCompositeOpen cb ?f]"
    by (rule new_calls_eq)
  have "later s (snd (openComposite E b fb (\<lambda>s. s) s))"
    by (rule openComposite_ok) (rule hook_ok_id)
  with res have lat: "later s ?s'" by simp
  have o: "filter is_open_call (new_calls s ?s') = [DidCompositeOpen cb ?f]"
    unfolding n using cb by simp
  have v: "\<forall>c v. CompositeSetVisible c v \<in> set (new_calls s ?s') \<longrightarrow> c = cb"
    unfolding n using cb by (auto simp: setVisible_title dest: setVisible_show)
  have f: "activeComposite ?s' = Some cb" "currentCompositeOpenToken ?s' = Some (Suc (lastId s))"
    by (simp_all add: showComposite_eq tok)
  show ?thesis
    by (intro exI[of _ cb] exI[of _ ?s'] conjI res cb(1) f lat o v)
qed

lemma superseded_open:
  assumes ok: "cache_ok E s"
    and a: "instantiatedCompositeItems s a = None" "registry E a = Some name" "\<not> activeIs s a"
    and b: "instantiatedCompositeItems s b \<noteq> None \<or> registry E b \<noteq> None"
  shows "\<exists>cb s'. openComposite E a fa (run_ops E [OpenComposite b fb []]) s = (Inr None, s')
        \<and> createComposite E a (Some True) (run_ops E [OpenComposite b fb []]) (before_create E a s)
            = (Inr (Composite a (instantiated s)), s')
        \<and> getId cb = b \<and> activeComposite s' = Some cb
        \<and> filter is_open_call (new_calls s s') = [DidCompositeOpen cb (fb = Some True)]
        \<and> (\<forall>c. CompositeSetVisible c True \<in> set (new_calls s s') \<longrightarrow> c = cb)"
proof -
  let ?H = "run_ops E [OpenComposite b fb []]"
  let ?f = "fa = Some True"
  let ?s3 = "before_create E a s"
  let ?ca = "Composite a (instantiated s)"
  let ?s0 = "emit (Instantiate ?ca) (?s3\<lparr>instantiated := instantiated ?s3 + 1\<rparr>)"
  have H: "?H ?s0 = snd (openComposite E b fb (\<lambda>s. s) ?s0)"
    by (simp add: run_ops_Nil)
  have ok3: "cache_ok E ?s3" using ok by (rule cache_ok_before_create)
  then have ok0: "cache_ok E ?s0"
    unfolding cache_ok_def by (auto simp: less_Suc_eq before_create_fields)
  have none0: "activeComposite ?s0 = None" by (simp add: before_create_fields)
  have known0: "instantiatedCompositeItems ?s0 b \<noteq> None \<or> registry E b \<noteq> None"
    using b by (simp add: before_create_fields)
  from open_plain[OF none0 ok0 known0, of fb]
  obtain cb sH where inner: "openComposite E b fb (\<lambda>s. s) ?s0 = (Inr (Some cb), sH)"
    and cb: "getId cb = b" "activeComposite sH = Some cb"
      "currentCompositeOpenToken sH = Some (Suc (lastId ?s0))"
      "filter is_open_call (new_calls ?s0 sH) = [DidCompositeOpen cb (fb = Some True)]"
      "\<forall>c v. CompositeSetVisible c v \<in> set (new_calls ?s0 sH) \<longrightarrow> c = cb"
    and lat: "later ?s0 sH"
    by blast
  from inner H have HsH: "?H ?s0 = sH" by simp
  let ?s4 = "sH\<lparr>instantiatedCompositeItems := (instantiatedCompositeItems sH)
               (a \<mapsto> \<lparr> item_composite = ?ca, item_disposable = [?ca],
                         item_progress = (a, Some True) \<rparr>),
             calls := calls sH @ [NewProgressIndicator a (Some True), OnTitleAreaUpdate ?ca]\<rparr>"
  have cr: "createComposite E a (Some True) ?H ?s3 = (Inr ?ca, ?s4)"
    using a HsH by (simp add: createComposite_new before_create_fields Let_def)
  have "currentCompositeOpenToken ?s4 \<noteq> Some (Suc (lastId s))"
    using cb(3) by (simp add: before_create_fields)
  then have "doOpenComposite_continue E (Suc (lastId s)) ?ca ?f ?s4 = (Inr None, ?s4)"
    by (intro continue_stale) simp
  with cr a(3) have res: "openComposite E a fa ?H s = (Inr None, ?s4)"
    by (simp add: openComposite_other doOpenComposite_eq)
  have "calls sH = calls ?s0 @ new_calls ?s0 sH"
    using lat by (rule later_calls_append)
  then have "calls ?s4 = calls s @ ((case activeComposite s of None \<Rightarrow> [] | Some p \<Rightarrow> hide_calls s p)
        @ title_calls E a None @ [Instantiate ?ca] @ new_calls ?s0 sH
        @ [NewProgressIndicator a (Some True), OnTitleAreaUpdate ?ca])"
    by (simp add: before_create_calls)
  then have n: "new_calls s ?s4 = (case activeComposite s of None \<Rightarrow> [] | Some p \<Rightarrow> hide_calls s p)
        @ title_calls E a None @ [Instantiate ?ca] @ new_calls ?s0 sH
        @ [NewProgressIndicator a (Some True), OnTitleAreaUpdate ?ca]"
    by (rule new_calls_eq)
  have o: "filter is_open_call (new_calls s ?s4) = [DidCompositeOpen cb (fb = Some True)]"
    unfolding n using cb(4) by (simp split: option.splits)
  have v: "\<forall>c. CompositeSetVisible c True \<in> set (new_calls s ?s4) \<longrightarrow> c = cb"
    unfolding n using cb(5) by (auto simp: setVisible_title setVisible_hide split: option.splits)
  have act: "activeComposite ?s4 = Some cb" using cb(2) by simp
  show ?thesis
    by (intro exI[of _ cb] exI[of _ ?s4] conjI res cr cb(1) act o v)
qed

text \<open>An opening that returns a composite holds the newest token.\<close>

lemma effective_open_newest_token:
  assumes "hook_ok E h" and "fst (doOpenComposite E cid focus h s) = Inr (Some c)"
  shows "lastId (snd (doOpenComposite E cid focus h s)) = Suc (lastId s)
       \<and> currentCompositeOpenToken (snd (doOpenComposite E cid focus h s)) = Some (Suc (lastId s))"
  using doOpenComposite_result[OF assms(1), of cid s focus] assms(2)
  by (elim disjE exE conjE) (simp_all add: showComposite_eq)

text \<open>
  Claim C1. \<^verbatim>\<open>doOpenComposite\<close> mints its token, prepares, calls \<^verbatim>\<open>createComposite\<close> and
  goes on with the token it minted; when it then finds that the current token is no
  longer its own, or that a composite with another identifier is active, it returns
  \<^verbatim>\<open>undefined\<close> and leaves the state exactly as \<^verbatim>\<open>createComposite\<close> left it, whatever
  happened during the construction of the composite. In particular, in a state that a
  run of a part reaches, when \<^verbatim>\<open>open(a)\<close> has to instantiate \<open>a\<close> and \<^verbatim>\<open>open(b)\<close> runs to its
  end during that construction, \<^verbatim>\<open>open(a)\<close> returns \<^verbatim>\<open>undefined\<close> in the state in which its
  \<^verbatim>\<open>createComposite\<close> ended, the composite of \<open>b\<close> is the active one, the only
  \<^verbatim>\<open>onDidCompositeOpen\<close> event of the whole call is that of \<open>b\<close>, and no other composite
  was told that it is visible. And whatever calls the construction makes on the part, a
  \<^verbatim>\<open>doOpenComposite\<close> that returns a composite holds the newest token: no token was minted
  after its own.
\<close>

theorem stale_open_is_discarded:
  "doOpenComposite E cid focus h s =
     (case createComposite E cid (Some True) h (before_create E cid s) of
        (Inl err, s4) \<Rightarrow> (Inl err, s4)
      | (Inr composite, s4) \<Rightarrow> doOpenComposite_continue E (Suc (lastId s)) composite focus s4)
   \<and> (currentCompositeOpenToken s4 \<noteq> Some token
        \<or> (\<exists>c. activeComposite s4 = Some c \<and> getId c \<noteq> getId composite) \<longrightarrow>
      doOpenComposite_continue E token composite focus s4 = (Inr None, s4))
   \<and> (s = run_ops E ops (new_part E stored n m)
        \<and> instantiatedCompositeItems s a = None \<and> registry E a \<noteq> None \<and> \<not> activeIs s a
        \<and> (instantiatedCompositeItems s b \<noteq> None \<or> registry E b \<noteq> None) \<longrightarrow>
      (\<exists>cb s'. openComposite E a fa (run_ops E [OpenComposite b fb []]) s = (Inr None, s')
         \<and> createComposite E a (Some True) (run_ops E [OpenComposite b fb []]) (before_create E a s)
             = (Inr (Composite a (instantiated s)), s')
         \<and> getId cb = b \<and> activeComposite s' = Some cb
         \<and> filter is_open_call (new_calls s s') = [DidCompositeOpen cb (fb = Some True)]
         \<and> (\<forall>c. CompositeSetVisible c True \<in> set (new_calls s s') \<longrightarrow> c = cb)))
   \<and> (fst (doOpenComposite E cid focus (run_ops E nested) s) = Inr (Some shown) \<longrightarrow>
        lastId (snd (doOpenComposite E cid focus (run_ops E nested) s)) = Suc (lastId s)
        \<and> currentCompositeOpenToken (snd (doOpenComposite E cid focus (run_ops E nested) s))
            = Some (Suc (lastId s)))"
proof (intro conjI impI)
  show "doOpenComposite E cid focus h s =
     (case createComposite E cid (Some True) h (before_create E cid s) of
        (Inl err, s4) \<Rightarrow> (Inl err, s4)
      | (Inr composite, s4) \<Rightarrow> doOpenComposite_continue E (Suc (lastId s)) composite focus s4)"
    by (rule doOpenComposite_eq)
next
  assume "currentCompositeOpenToken s4 \<noteq> Some token
        \<or> (\<exists>c. activeComposite s4 = Some c \<and> getId c \<noteq> getId composite)"
  then show "doOpenComposite_continue E token composite focus s4 = (Inr None, s4)"
    by (rule continue_stale)
next
  assume h: "s = run_ops E ops (new_part E stored n m)
        \<and> instantiatedCompositeItems s a = None \<and> registry E a \<noteq> None \<and> \<not> activeIs s a
        \<and> (instantiatedCompositeItems s b \<noteq> None \<or> registry E b \<noteq> None)"
  then have ok: "cache_ok E s" by (simp add: run_ok)
  from h obtain name where "registry E a = Some name" by auto
  with h superseded_open[OF ok, of a name b fa fb]
  show "\<exists>cb s'. openComposite E a fa (run_ops E [OpenComposite b fb []]) s = (Inr None, s')
         \<and> createComposite E a (Some True) (run_ops E [OpenComposite b fb []]) (before_create E a s)
             = (Inr (Composite a (instantiated s)), s')
         \<and> getId cb = b \<and> activeComposite s' = Some cb
         \<and> filter is_open_call (new_calls s s') = [DidCompositeOpen cb (fb = Some True)]
         \<and> (\<forall>c. CompositeSetVisible c True \<in> set (new_calls s s') \<longrightarrow> c = cb)"
    by blast
next
  assume "fst (doOpenComposite E cid focus (run_ops E nested) s) = Inr (Some shown)"
  from effective_open_newest_token[OF hook_ok_run_ops this]
  show "lastId (snd (doOpenComposite E cid focus (run_ops E nested) s)) = Suc (lastId s)"
    and "currentCompositeOpenToken (snd (doOpenComposite E cid focus (run_ops E nested) s))
            = Some (Suc (lastId s))"
    by simp_all
qed

theorem stale_open_is_discarded_witness:
  "fst (openComposite example_env ''explorer'' (Some True)
          (run_ops example_env [OpenComposite ''search'' None []])
          (new_part example_env None 0 0)) = Inr None
   \<and> map_option getId (activeComposite (snd (openComposite example_env ''explorer'' (Some True)
          (run_ops example_env [OpenComposite ''search'' None []])
          (new_part example_env None 0 0)))) = Some ''search''
   \<and> fst (openComposite example_env ''search'' None
          (run_ops example_env [OpenComposite ''explorer'' None []]) example_part) = Inr None
   \<and> map_option getId (activeComposite (snd (openComposite example_env ''search'' None
          (run_ops example_env [OpenComposite ''explorer'' None []]) example_part)))
       = Some ''explorer''"
proof -
  have "new_part example_env None 0 0 = run_ops example_env [] (new_part example_env None 0 0)
        \<and> instantiatedCompositeItems (new_part example_env None 0 0) ''explorer'' = None
        \<and> registry example_env ''explorer'' \<noteq> None
        \<and> \<not> activeIs (new_part example_env None 0 0) ''explorer''
        \<and> (instantiatedCompositeItems (new_part example_env None 0 0) ''search'' \<noteq> None
            \<or> registry example_env ''search'' \<noteq> None)"
    by (simp add: new_part_def example_env_def activeIs_def)
  with stale_open_is_discarded[where s = "new_part example_env None 0 0" and E = example_env
      and ops = "[]" and stored = None and n = 0 and m = 0 and a = "''explorer''"
      and b = "''search''" and fa = "Some True" and fb = None]
  obtain cb s' where 1: "openComposite example_env ''explorer'' (Some True)
          (run_ops example_env [OpenComposite ''search'' None []])
          (new_part example_env None 0 0) = (Inr None, s')"
      "getId cb = ''search''" "activeComposite s' = Some cb"
    by blast
  have "instantiatedCompositeItems example_part ''search'' = None
        \<and> registry example_env ''search'' \<noteq> None
        \<and> \<not> activeIs example_part ''search''
        \<and> (instantiatedCompositeItems example_part ''explorer'' \<noteq> None
            \<or> registry example_env ''explorer'' \<noteq> None)"
    by (simp add: example_part_eq example_env_def activeIs_def)
  from conjI[OF example_part_def this] stale_open_is_discarded[where s = example_part and E = example_env
      and ops = "[OpenComposite ''explorer'' None []]" and stored = None and n = 0 and m = 0
      and a = "''search''" and b = "''explorer''" and fa = None and fb = None]
  obtain cb' s'' where 2: "openComposite example_env ''search'' None
          (run_ops example_env [OpenComposite ''explorer'' None []]) example_part = (Inr None, s'')"
      "getId cb' = ''explorer''" "activeComposite s'' = Some cb'"
    by blast
  from 1 2 show ?thesis by simp
qed

section \<open>Exclusive activation\<close>








end
